theory Spec2Isabelle
  imports Main
begin

section \<open>The multipart stream parser of \<^verbatim>\<open>multipart-stream.js\<close>\<close>

text \<open>
  The module exports one function, \<^verbatim>\<open>multipartStream(contentType, body)\<close>, which
  wraps a byte stream into a stream of parts \<^verbatim>\<open>{headers, body}\<close>.  The parser
  keeps a buffer \<^verbatim>\<open>buf\<close>, a cursor \<^verbatim>\<open>pos\<close>, a state, the headers of the
  part being read and its content length; \<^verbatim>\<open>processBuf\<close> drains the buffer and the
  main loop of \<^verbatim>\<open>start\<close> reads the source chunk by chunk.

  Bytes (elements of a \<^verbatim>\<open>Uint8Array\<close>) and the code units of JavaScript strings are
  natural numbers; \<open>ascii\<close> turns a literal into its code units, which for ASCII
  text are also its UTF-8 bytes.  JavaScript numbers that hold cursor positions and
  lengths are integers (\<open>int\<close>): the cursor is a signed number in the source and
  nothing there keeps it from going below zero.
\<close>

type_synonym byte = nat
type_synonym jsstring = "nat list"

definition ascii :: "string \<Rightarrow> nat list" where
  "ascii s = map of_char s"

subsection \<open>The JavaScript operations the source calls\<close>

text \<open>
  A relative index as \<^verbatim>\<open>TypedArray.prototype.slice\<close> reads it: a negative index
  counts from the end, and the result is clamped to \<open>0..len\<close>.
\<close>

definition rel_index :: "int \<Rightarrow> nat \<Rightarrow> nat" where
  "rel_index i len = (if i < 0 then nat (max (int len + i) 0) else min (nat i) len)"

text \<open>\<^verbatim>\<open>a.slice(start, fin)\<close> and \<^verbatim>\<open>a.slice(start)\<close> on a typed array.\<close>

definition slice :: "'a list \<Rightarrow> int \<Rightarrow> int \<Rightarrow> 'a list" where
  "slice a start fin =
     (let k = rel_index start (length a); final = rel_index fin (length a)
      in take (final - k) (drop k a))"

definition slice_from :: "'a list \<Rightarrow> int \<Rightarrow> 'a list" where
  "slice_from a start = drop (rel_index start (length a)) a"

text \<open>\<^verbatim>\<open>a[i]\<close>: \<open>None\<close> is \<^verbatim>\<open>undefined\<close>, the value of an index out of range.\<close>

definition at :: "'a list \<Rightarrow> int \<Rightarrow> 'a option" where
  "at a i = (if 0 \<le> i \<and> i < int (length a) then Some (a ! nat i) else None)"

text \<open>
  \<^verbatim>\<open>a.indexOf(x, fromIndex)\<close> on a typed array: the search starts at
  \<open>fromIndex\<close>, counted from the end when negative; \<open>-1\<close> when \<open>x\<close> is absent.
  On a string, \<^verbatim>\<open>s.indexOf(c)\<close> searches from index 0.
\<close>

primrec first_index :: "'a list \<Rightarrow> 'a \<Rightarrow> nat \<Rightarrow> int" where
  "first_index [] x k = - 1"
| "first_index (y # ys) x k = (if y = x then int k else first_index ys x (Suc k))"

definition indexOf :: "'a list \<Rightarrow> 'a \<Rightarrow> int \<Rightarrow> int" where
  "indexOf a x fromIndex =
     (let k = (if 0 \<le> fromIndex then nat fromIndex
               else nat (max (int (length a) + fromIndex) 0))
      in first_index (drop k a) x k)"

text \<open>
  \<^verbatim>\<open>s.indexOf(t, position)\<close> on strings: the first index at or after
  \<open>position\<close> (clamped to \<open>0..length s\<close>) where \<open>t\<close> occurs, or \<open>-1\<close>.
\<close>

primrec search :: "'a list \<Rightarrow> 'a list \<Rightarrow> nat \<Rightarrow> int" where
  "search t [] k = (if t = [] then int k else - 1)"
| "search t (x # xs) k =
     (if take (length t) (x # xs) = t then int k else search t xs (Suc k))"

definition str_indexOf :: "'a list \<Rightarrow> 'a list \<Rightarrow> int \<Rightarrow> int" where
  "str_indexOf s t position =
     (let start = min (nat position) (length s) in search t (drop start s) start)"

definition startsWith :: "'a list \<Rightarrow> 'a list \<Rightarrow> bool" where
  "startsWith s t = (take (length t) s = t)"

text \<open>
  \<^verbatim>\<open>s.substring(a, b)\<close> and \<^verbatim>\<open>s.substring(a)\<close>: both ends are clamped to
  \<open>0..length s\<close> and swapped when out of order.
\<close>

definition substring :: "'a list \<Rightarrow> int \<Rightarrow> int \<Rightarrow> 'a list" where
  "substring s a b =
     (let fs = min (nat a) (length s); fe = min (nat b) (length s);
          from = min fs fe; to = max fs fe
      in take (to - from) (drop from s))"

definition substring_from :: "'a list \<Rightarrow> int \<Rightarrow> 'a list" where
  "substring_from s a = drop (min (nat a) (length s)) s"

text \<open>\<^verbatim>\<open>getBoundary\<close>: \<open>None\<close> is the \<^verbatim>\<open>null\<close> the source returns.\<close>

definition getBoundary :: "jsstring \<Rightarrow> jsstring option" where
  "getBoundary contentType =
     (let MULTIPART_TYPE = ascii ''multipart/'';
          BOUNDARY_PARAM = ascii ''; boundary=''
      in
      if \<not> startsWith contentType MULTIPART_TYPE then None
      else
        (let i = str_indexOf contentType BOUNDARY_PARAM (int (length MULTIPART_TYPE))
         in if i = - 1 then None
            else Some (substring_from contentType (i + int (length BOUNDARY_PARAM)))))"


subsection \<open>\<^verbatim>\<open>TextEncoder\<close> and \<^verbatim>\<open>TextDecoder\<close>\<close>

text \<open>
  \<^verbatim>\<open>encoder.encode(s)\<close>: the UTF-8 bytes of the string; a surrogate pair is one
  code point and a lone surrogate is replaced by U+FFFD.
\<close>

definition encode_code_point :: "nat \<Rightarrow> byte list" where
  "encode_code_point c =
     (if c < 0x80 then [c]
      else if c < 0x800 then [0xC0 + c div 64, 0x80 + c mod 64]
      else if c < 0x10000 then
        [0xE0 + c div 4096, 0x80 + (c div 64) mod 64, 0x80 + c mod 64]
      else [0xF0 + c div 262144, 0x80 + (c div 4096) mod 64,
            0x80 + (c div 64) mod 64, 0x80 + c mod 64])"

fun encode :: "jsstring \<Rightarrow> byte list" where
  "encode [] = []"
| "encode [u] =
     (if 0xD800 \<le> u \<and> u \<le> 0xDFFF then encode_code_point 0xFFFD
      else encode_code_point u)"
| "encode (u # v # us) =
     (if 0xD800 \<le> u \<and> u \<le> 0xDBFF then
        (if 0xDC00 \<le> v \<and> v \<le> 0xDFFF
         then encode_code_point (0x10000 + (u - 0xD800) * 0x400 + (v - 0xDC00)) @ encode us
         else encode_code_point 0xFFFD @ encode (v # us))
      else if 0xDC00 \<le> u \<and> u \<le> 0xDFFF then encode_code_point 0xFFFD @ encode (v # us)
      else encode_code_point u @ encode (v # us))"

text \<open>
  \<^verbatim>\<open>decoder.decode(bytes)\<close> for the UTF-8 decoder without the \<^verbatim>\<open>fatal\<close> flag:
  \<open>utf8_decode cp needed lower upper\<close> is the decoder's state (the code point
  so far, the continuation bytes still needed and the range allowed for the next
  byte); an ill-formed sequence gives U+FFFD and the offending byte is read again.
  A leading byte order mark is dropped, and a code point beyond the basic plane
  becomes a surrogate pair.
\<close>

fun utf8_decode :: "nat \<Rightarrow> nat \<Rightarrow> nat \<Rightarrow> nat \<Rightarrow> byte list \<Rightarrow> nat list" where
  "utf8_decode cp needed lower upper [] = (if needed \<noteq> 0 then [0xFFFD] else [])"
| "utf8_decode cp needed lower upper (b # bs) =
     (if needed = 0 then
        (if b \<le> 0x7F then b # utf8_decode 0 0 0x80 0xBF bs
         else if 0xC2 \<le> b \<and> b \<le> 0xDF then utf8_decode (b - 0xC0) 1 0x80 0xBF bs
         else if 0xE0 \<le> b \<and> b \<le> 0xEF then
           utf8_decode (b - 0xE0) 2 (if b = 0xE0 then 0xA0 else 0x80)
             (if b = 0xED then 0x9F else 0xBF) bs
         else if 0xF0 \<le> b \<and> b \<le> 0xF4 then
           utf8_decode (b - 0xF0) 3 (if b = 0xF0 then 0x90 else 0x80)
             (if b = 0xF4 then 0x8F else 0xBF) bs
         else 0xFFFD # utf8_decode 0 0 0x80 0xBF bs)
      else if b < lower \<or> upper < b then 0xFFFD # utf8_decode 0 0 0x80 0xBF (b # bs)
      else if needed = 1 then (cp * 64 + (b - 0x80)) # utf8_decode 0 0 0x80 0xBF bs
      else utf8_decode (cp * 64 + (b - 0x80)) (needed - 1) 0x80 0xBF bs)"

definition code_units :: "nat \<Rightarrow> nat list" where
  "code_units c =
     (if c < 0x10000 then [c]
      else [0xD800 + (c - 0x10000) div 0x400, 0xDC00 + (c - 0x10000) mod 0x400])"

definition decode :: "byte list \<Rightarrow> jsstring" where
  "decode bs =
     (let cps = utf8_decode 0 0 0x80 0xBF bs
      in concat (map code_units (case cps of [] \<Rightarrow> [] | c # r \<Rightarrow> if c = 0xFEFF then r else cps)))"

subsection \<open>\<^verbatim>\<open>Headers\<close> and \<^verbatim>\<open>parseInt\<close>\<close>

text \<open>
  The source keeps the headers of a part in a \<^verbatim>\<open>Headers\<close> object of the Fetch
  standard: a list of name and value pairs in the order of insertion.
  \<^verbatim>\<open>append\<close> strips the value of leading and trailing whitespace (tab, LF, CR,
  space), raises a \<^verbatim>\<open>TypeError\<close> (\<open>None\<close> here) unless the name is a token and
  the value a header value of bytes, gives the new entry the spelling of the first
  entry whose name matches it without regard to case, and adds it at the end.
  \<^verbatim>\<open>get\<close> joins the values of the entries whose name matches with a comma and
  a space, and returns \<^verbatim>\<open>null\<close> (\<open>None\<close>) when there is none.
\<close>

type_synonym header = "jsstring \<times> jsstring"

definition http_whitespace :: "nat \<Rightarrow> bool" where
  "http_whitespace c = (c = 0x09 \<or> c = 0x0A \<or> c = 0x0D \<or> c = 0x20)"

definition normalize :: "jsstring \<Rightarrow> jsstring" where
  "normalize v = rev (dropWhile http_whitespace (rev (dropWhile http_whitespace v)))"

definition tchar :: "nat \<Rightarrow> bool" where
  "tchar c =
     ((0x30 \<le> c \<and> c \<le> 0x39) \<or> (0x41 \<le> c \<and> c \<le> 0x5A) \<or> (0x61 \<le> c \<and> c \<le> 0x7A) \<or>
      c \<in> set (ascii ''!#$%&*+-.^_|~'') \<or> c = 0x27 \<or> c = 0x60)"

definition header_name :: "jsstring \<Rightarrow> bool" where
  "header_name n = (n \<noteq> [] \<and> list_all tchar n)"

definition header_value :: "jsstring \<Rightarrow> bool" where
  "header_value v =
     (list_all (\<lambda>c. c \<noteq> 0x00 \<and> c \<noteq> 0x0A \<and> c \<noteq> 0x0D \<and> c \<le> 0xFF) v \<and>
      (v = [] \<or> (hd v \<noteq> 0x09 \<and> hd v \<noteq> 0x20 \<and> last v \<noteq> 0x09 \<and> last v \<noteq> 0x20)))"

definition lowercase :: "jsstring \<Rightarrow> jsstring" where
  "lowercase n = map (\<lambda>c. if 0x41 \<le> c \<and> c \<le> 0x5A then c + 0x20 else c) n"

definition same_name :: "jsstring \<Rightarrow> jsstring \<Rightarrow> bool" where
  "same_name a b = (lowercase a = lowercase b)"

definition Headers_append :: "header list \<Rightarrow> jsstring \<Rightarrow> jsstring \<Rightarrow> header list option" where
  "Headers_append hs name v =
     (let val = normalize v in
      if \<not> list_all (\<lambda>c. c \<le> 0xFF) (name @ v) \<or> \<not> header_name name \<or> \<not> header_value val
      then None
      else Some (hs @ [(case find (\<lambda>h. same_name (fst h) name) hs of
                          Some h \<Rightarrow> fst h | None \<Rightarrow> name, val)]))"

fun join_values :: "jsstring list \<Rightarrow> jsstring" where
  "join_values [] = []"
| "join_values [v] = v"
| "join_values (v # w # vs) = v @ ascii '', '' @ join_values (w # vs)"

definition Headers_get :: "header list \<Rightarrow> jsstring \<Rightarrow> jsstring option" where
  "Headers_get hs name =
     (let vs = map snd (filter (\<lambda>h. same_name (fst h) name) hs)
      in if vs = [] then None else Some (join_values vs))"

text \<open>
  \<^verbatim>\<open>parseInt(x, 10)\<close>, where \<open>x\<close> is a string or \<^verbatim>\<open>null\<close>: leading white
  space is skipped, then an optional sign and the longest run of decimal digits are
  read and whatever follows is ignored; no digit gives \<^verbatim>\<open>NaN\<close> (\<open>None\<close>), as
  does \<^verbatim>\<open>null\<close>, which is read as the string \<^verbatim>\<open>"null"\<close>.  The result is an
  exact integer here; a JavaScript number is exact up to \<open>2^53\<close>, far beyond
  the length of any buffer.
\<close>

definition js_whitespace :: "nat \<Rightarrow> bool" where
  "js_whitespace c =
     ((0x09 \<le> c \<and> c \<le> 0x0D) \<or> c = 0x20 \<or> c = 0xA0 \<or> c = 0x1680 \<or>
      (0x2000 \<le> c \<and> c \<le> 0x200A) \<or> c = 0x2028 \<or> c = 0x2029 \<or> c = 0x202F \<or>
      c = 0x205F \<or> c = 0x3000 \<or> c = 0xFEFF)"

definition digit :: "nat \<Rightarrow> bool" where
  "digit c = (0x30 \<le> c \<and> c \<le> 0x39)"

definition digits_value :: "nat list \<Rightarrow> int" where
  "digits_value ds = foldl (\<lambda>a d. 10 * a + (int d - 0x30)) 0 ds"

definition parseInt :: "jsstring option \<Rightarrow> int option" where
  "parseInt x =
     (case x of
        None \<Rightarrow> None
      | Some s \<Rightarrow>
          (let t = dropWhile js_whitespace s;
               negative = (t \<noteq> [] \<and> hd t = 0x2D);
               u = (if t \<noteq> [] \<and> (hd t = 0x2B \<or> hd t = 0x2D) then tl t else t);
               z = takeWhile digit u
           in if z = [] then None
              else Some (if negative then - digits_value z else digits_value z)))"

subsection \<open>The parser\<close>

text \<open>
  \<^verbatim>\<open>compareArrays\<close>: equal lengths, then an index loop that stops at the first
  difference.
\<close>

function compareLoop :: "'a list \<Rightarrow> 'a list \<Rightarrow> nat \<Rightarrow> bool" where
  "compareLoop a b i =
     (if i < length a then (if a ! i \<noteq> b ! i then False else compareLoop a b (i + 1))
      else True)"
  by pat_completeness auto
termination
  by (relation "measure (\<lambda>(a, b, i). length a - i)") auto

declare compareLoop.simps [simp del]

definition compareArrays :: "'a list \<Rightarrow> 'a list \<Rightarrow> bool" where
  "compareArrays a b = (if length a \<noteq> length b then False else compareLoop a b 0)"

definition blankLine :: "byte list" where
  "blankLine = [0x0D, 0x0A]"

datatype pstate = STATE_BOUNDARY | STATE_HEADERS | STATE_BODY

text \<open>
  The errors the source raises, named by their messages, and the exceptions the
  platform raises in calls the source makes (\<open>TypeError\<close> from \<^verbatim>\<open>Headers\<close>,
  \<open>RangeError\<close> from a typed array).
\<close>

datatype error =
    Invalid_content_type
  | Bad_part_boundary
  | Bad_header_CR_without_NL
  | Missing_invalid_Content_Length
  | Bad_header_no_colon_space
  | Ended_mid_part
  | TypeError
  | RangeError

text \<open>The object handed to \<^verbatim>\<open>controller.enqueue\<close>.\<close>

record part =
  p_headers :: "header list option"
  p_body :: "byte list"

text \<open>
  The variables of \<^verbatim>\<open>start\<close> that \<^verbatim>\<open>processBuf\<close> and the main loop share,
  and the queue of the controller.  \<open>None\<close> is \<^verbatim>\<open>null\<close>.
\<close>

record parser =
  pos :: int
  buf :: "byte list"
  state :: pstate
  headers :: "header list option"
  contentLength :: "int option"
  enqueued :: "part list"

text \<open>How one turn of the \<^verbatim>\<open>while (true)\<close> of \<^verbatim>\<open>processBuf\<close> ends.\<close>

datatype turn = Break parser | Return parser | Throw error parser

text \<open>The inner loop of \<^verbatim>\<open>STATE_BOUNDARY\<close> that reads blank lines.\<close>

function skipBlank :: "byte list \<Rightarrow> int \<Rightarrow> int" where
  "skipBlank b p =
     (if int (length b) \<ge> p + int (length blankLine) \<and>
         compareArrays (slice b p (p + int (length blankLine))) blankLine
      then skipBlank b (p + int (length blankLine)) else p)"
  by pat_completeness auto
termination
  by (relation "measure (\<lambda>(b, p). nat (int (length b) - p))") (auto simp: blankLine_def)

declare skipBlank.simps [simp del]

definition case_BOUNDARY :: "byte list \<Rightarrow> byte list \<Rightarrow> parser \<Rightarrow> turn" where
  "case_BOUNDARY midBoundary endBoundary s0 =
     (let s = s0\<lparr>pos := skipBlank (buf s0) (pos s0)\<rparr> in
      if int (length (buf s)) < pos s + int (length midBoundary) then Return s
      else if \<not> compareArrays (slice (buf s) (pos s) (pos s + int (length midBoundary)))
                  midBoundary then
        (if compareArrays (slice (buf s) (pos s) (pos s + int (length endBoundary)))
              endBoundary
         then Return (s\<lparr>state := STATE_BOUNDARY, pos := pos s + int (length endBoundary)\<rparr>)
         else Throw Bad_part_boundary s)
      else Break (s\<lparr>pos := pos s + int (length midBoundary), state := STATE_HEADERS,
                     headers := Some []\<rparr>))"

definition case_HEADERS :: "parser \<Rightarrow> turn" where
  "case_HEADERS s =
     (let cr = indexOf (buf s) 0x0D (pos s) in
      if cr = - 1 \<or> int (length (buf s)) = cr + 1 then Return s
      else if at (buf s) (cr + 1) \<noteq> Some 0x0A then Throw Bad_header_CR_without_NL s
      else
        let line = decode (slice (buf s) (pos s) cr);
            s1 = s\<lparr>pos := cr + 2\<rparr>
        in
        if line = [] then
          (case headers s1 of
             None \<Rightarrow> Throw TypeError s1
           | Some hs \<Rightarrow>
               (case parseInt (Headers_get hs (ascii ''Content-Length'')) of
                  None \<Rightarrow> Throw Missing_invalid_Content_Length s1
                | Some n \<Rightarrow> Break (s1\<lparr>contentLength := Some n, state := STATE_BODY\<rparr>)))
        else
          let colon = first_index line 0x3A 0;
              name = substring line 0 colon
          in
          if colon = int (length line) \<or> at line (colon + 1) \<noteq> Some 0x20
          then Throw Bad_header_no_colon_space s1
          else
            (case headers s1 of
               None \<Rightarrow> Throw TypeError s1
             | Some hs \<Rightarrow>
                 (case Headers_append hs name (substring_from line (colon + 2)) of
                    None \<Rightarrow> Throw TypeError s1
                  | Some hs' \<Rightarrow> Break (s1\<lparr>headers := Some hs'\<rparr>))))"

text \<open>
  In \<^verbatim>\<open>STATE_BODY\<close> the content length is a number; were it \<^verbatim>\<open>null\<close>, the
  arithmetic of the source would read it as 0.
\<close>

definition case_BODY :: "parser \<Rightarrow> turn" where
  "case_BODY s =
     (let n = (case contentLength s of None \<Rightarrow> 0 | Some n \<Rightarrow> n) in
      if int (length (buf s)) < pos s + n then Return s
      else Break (s\<lparr>pos := pos s + n,
                     enqueued := enqueued s @
                       [\<lparr>p_headers = headers s, p_body = slice (buf s) (pos s) (pos s + n)\<rparr>],
                     headers := None, contentLength := None, state := STATE_BOUNDARY\<rparr>))"

definition turn :: "byte list \<Rightarrow> byte list \<Rightarrow> parser \<Rightarrow> turn" where
  "turn midBoundary endBoundary s =
     (case state s of
        STATE_BOUNDARY \<Rightarrow> case_BOUNDARY midBoundary endBoundary s
      | STATE_HEADERS \<Rightarrow> case_HEADERS s
      | STATE_BODY \<Rightarrow> case_BODY s)"

text \<open>
  \<^verbatim>\<open>processBuf\<close>: the turns repeat until one returns or throws.  Nothing bounds
  their number, so the function is partial: \<open>None\<close> is a drain that never ends.
\<close>

datatype drained = Returned parser | Threw error parser

partial_function (option) processBuf :: "byte list \<Rightarrow> byte list \<Rightarrow> parser \<Rightarrow> drained option" where
  "processBuf midBoundary endBoundary s =
     (case turn midBoundary endBoundary s of
        Break s' \<Rightarrow> processBuf midBoundary endBoundary s'
      | Return s' \<Rightarrow> Some (Returned s')
      | Throw e s' \<Rightarrow> Some (Threw e s'))"

text \<open>
  The main loop of \<^verbatim>\<open>start\<close> over the chunks the source delivers, the empty
  list being the end of the source.  The result is what the consumer can observe:
  the parts enqueued, how the stream ended, and the number of reads issued.
\<close>

datatype ending = Closed | Errored error

record outcome =
  emitted :: "part list"
  ending :: ending
  reads :: nat

function trimNewlines :: "byte list \<Rightarrow> int \<Rightarrow> int \<Rightarrow> int \<times> int" where
  "trimNewlines b p buffered =
     (if buffered > 0 \<and> (at b p = Some 10 \<or> at b p = Some 13)
      then trimNewlines b (p + 1) (buffered - 1) else (p, buffered))"
  by pat_completeness auto
termination
  by (relation "measure (\<lambda>(b, p, buffered). nat buffered)") auto

declare trimNewlines.simps [simp del]

text \<open>
  A new chunk replaces a buffer that is used up; otherwise the rest of the buffer
  and the chunk are copied into a new, zero-filled array.
\<close>

definition appendChunk :: "parser \<Rightarrow> byte list \<Rightarrow> error + parser" where
  "appendChunk s val =
     (let buffered = int (length (buf s)) - pos s in
      if buffered = 0 then Inr (s\<lparr>buf := val, pos := 0\<rparr>)
      else if buffered < 0 then Inl RangeError
      else
        (let rest = slice_from (buf s) (pos s)
         in Inr (s\<lparr>buf := rest @ replicate (nat buffered - length rest) 0 @ val, pos := 0\<rparr>)))"

fun mainLoop :: "byte list \<Rightarrow> byte list \<Rightarrow> parser \<Rightarrow> nat \<Rightarrow> byte list list \<Rightarrow> outcome option" where
  "mainLoop midBoundary endBoundary s n [] =
     (let buffered = int (length (buf s)) - pos s;
          trimmed = trimNewlines (buf s) (pos s) buffered
      in if state s \<noteq> STATE_BOUNDARY \<or> snd trimmed > 0
         then Some \<lparr>emitted = enqueued s, ending = Errored Ended_mid_part, reads = Suc n\<rparr>
         else Some \<lparr>emitted = enqueued s, ending = Closed, reads = Suc n\<rparr>)"
| "mainLoop midBoundary endBoundary s n (val # chunks) =
     (case appendChunk s val of
        Inl e \<Rightarrow> Some \<lparr>emitted = enqueued s, ending = Errored e, reads = Suc n\<rparr>
      | Inr s1 \<Rightarrow>
          (case processBuf midBoundary endBoundary s1 of
             None \<Rightarrow> None
           | Some (Threw e s2) \<Rightarrow>
               Some \<lparr>emitted = enqueued s2, ending = Errored e, reads = Suc n\<rparr>
           | Some (Returned s2) \<Rightarrow> mainLoop midBoundary endBoundary s2 (Suc n) chunks))"

definition multipartStream :: "jsstring \<Rightarrow> byte list list \<Rightarrow> outcome option" where
  "multipartStream contentType chunks =
     (case getBoundary contentType of
        None \<Rightarrow> Some \<lparr>emitted = [], ending = Errored Invalid_content_type, reads = 0\<rparr>
      | Some boundaryStr \<Rightarrow>
          mainLoop (encode (ascii ''--'' @ boundaryStr @ [0x0D, 0x0A]))
                   (encode (ascii ''--'' @ boundaryStr @ ascii ''--''))
                   \<lparr>pos = 0, buf = [], state = STATE_BOUNDARY, headers = None,
                    contentLength = None, enqueued = []\<rparr> 0 chunks)"

section \<open>The wire format of the specification\<close>

text \<open>
  The claims about whole streams speak of the wire format of the specification
  (its section 6): any number of blank lines, the boundary line \<^verbatim>\<open>--token\r\n\<close>,
  header lines \<^verbatim>\<open>Name: value\r\n\<close>, an empty line, the body; after the last part
  any number of blank lines, the end boundary \<^verbatim>\<open>--token--\<close> and trailing blank
  lines.  \<open>wire token ps j k\<close> are the bytes of the parts \<open>ps\<close>, each a triple of
  the number of blank lines before its boundary line, its headers and its body,
  followed by \<open>j\<close> blank lines, the end boundary and \<open>k\<close> blank lines.  Text is
  turned into bytes by \<open>encode\<close>, as the source does for the boundaries.

  A part is \<open>encodable\<close> when each header name is a token and each header value a
  header value, as \<^verbatim>\<open>Headers\<close> demands, and the first header whose name is
  \<^verbatim>\<open>Content-Length\<close>, the case of letters ignored, has as its value the decimal
  numeral of the length of the body.  It is \<open>well_formed\<close> under the weaker
  condition that the \<^verbatim>\<open>Content-Length\<close> read from its headers is the length of
  its body.  \<open>appended acc hs\<close> is the list that \<^verbatim>\<open>Headers\<close> holds after
  the headers \<open>hs\<close> are appended to \<open>acc\<close> one by one: the same values in the same
  order, a name spelled as the first entry of that name spells it.  \<open>parsed p\<close> is
  the part the consumer is to receive for \<open>p\<close>.
\<close>

definition blank_lines :: "nat \<Rightarrow> byte list" where
  "blank_lines k = concat (replicate k blankLine)"

definition header_line :: "header \<Rightarrow> byte list" where
  "header_line h = encode (fst h @ ascii '': '' @ snd h) @ blankLine"

definition wire_part :: "byte list \<Rightarrow> nat \<times> header list \<times> byte list \<Rightarrow> byte list" where
  "wire_part mid p =
     (case p of (j, hs, body) \<Rightarrow>
        blank_lines j @ mid @ concat (map header_line hs) @ blankLine @ body)"

definition wire :: "jsstring \<Rightarrow> (nat \<times> header list \<times> byte list) list \<Rightarrow> nat \<Rightarrow> nat \<Rightarrow> byte list" where
  "wire token ps j k =
     concat (map (wire_part (encode (ascii ''--'' @ token @ [0x0D, 0x0A]))) ps) @
     blank_lines j @ encode (ascii ''--'' @ token @ ascii ''--'') @ blank_lines k"

definition well_formed :: "nat \<times> header list \<times> byte list \<Rightarrow> bool" where
  "well_formed p =
     (case p of (j, hs, body) \<Rightarrow>
        list_all (\<lambda>h. header_name (fst h) \<and> header_value (snd h)) hs \<and>
        parseInt (Headers_get hs (ascii ''Content-Length'')) = Some (int (length body)))"

fun decimal :: "nat \<Rightarrow> jsstring" where
  "decimal n = (if n < 10 then [0x30 + n] else decimal (n div 10) @ [0x30 + n mod 10])"

declare decimal.simps [simp del]

definition encodable :: "nat \<times> header list \<times> byte list \<Rightarrow> bool" where
  "encodable p =
     (case p of (j, hs, body) \<Rightarrow>
        list_all (\<lambda>h. header_name (fst h) \<and> header_value (snd h)) hs \<and>
        map_option snd (find (\<lambda>h. same_name (fst h) (ascii ''Content-Length'')) hs) =
          Some (decimal (length body)))"

fun appended :: "header list \<Rightarrow> header list \<Rightarrow> header list" where
  "appended acc [] = acc"
| "appended acc (h # hs) =
     appended (acc @ [(case find (\<lambda>g. same_name (fst g) (fst h)) acc of
                         Some g \<Rightarrow> fst g | None \<Rightarrow> fst h, snd h)]) hs"

definition parsed :: "nat \<times> header list \<times> byte list \<Rightarrow> part" where
  "parsed p = (case p of (j, hs, body) \<Rightarrow> \<lparr>p_headers = Some (appended [] hs), p_body = body\<rparr>)"

section \<open>The parser seen through the bytes it has not consumed\<close>

text \<open>
  While the cursor is inside the buffer (\<open>in_range\<close>), what \<^verbatim>\<open>processBuf\<close> does
  depends on the buffer only through the bytes from the cursor on.  The \<open>view\<close> of a
  parser holds these bytes in place of the buffer and the cursor, and \<open>view_turn\<close>,
  \<open>view_drain\<close> and \<open>view_loop\<close> are the turn, the drain and the main loop on
  views, written with \<open>take\<close>, \<open>drop\<close> and \<open>takeWhile\<close>.  A turn on a view says
  whether the drain returned to wait for bytes (\<open>VSuspend\<close>) or at the end boundary
  (\<open>VEnd\<close>), and it stops with \<open>VBackwards\<close> at a negative content length, where
  the cursor of the source would move backwards and the view says nothing; so the
  drain on views is total.  They serve the proofs only: \<open>refines\<close> states what a
  turn of the source has to do for a turn on the view, and the lemmas of the next
  section show that the functions of the source return what the functions on views
  return, wherever those have a result.
\<close>

fun blanks :: "byte list \<Rightarrow> nat" where
  "blanks (a # b # r) = (if a = 0x0D \<and> b = 0x0A then 2 + blanks r else 0)"
| "blanks r = 0"

record view =
  v_state :: pstate
  v_rest :: "byte list"
  v_headers :: "header list option"
  v_contentLength :: "int option"
  v_enqueued :: "part list"

definition view :: "parser \<Rightarrow> view" where
  "view s = \<lparr>v_state = state s, v_rest = drop (nat (pos s)) (buf s), v_headers = headers s,
             v_contentLength = contentLength s, v_enqueued = enqueued s\<rparr>"

definition in_range :: "parser \<Rightarrow> bool" where
  "in_range s = (0 \<le> pos s \<and> pos s \<le> int (length (buf s)))"

datatype vturn = VBreak view | VSuspend view | VEnd view | VThrow error "part list" | VBackwards

definition view_BOUNDARY :: "byte list \<Rightarrow> byte list \<Rightarrow> view \<Rightarrow> vturn" where
  "view_BOUNDARY midBoundary endBoundary v =
     (let r = drop (blanks (v_rest v)) (v_rest v) in
      if length r < length midBoundary then VSuspend (v\<lparr>v_rest := r\<rparr>)
      else if take (length midBoundary) r = midBoundary then
        VBreak (v\<lparr>v_rest := drop (length midBoundary) r, v_state := STATE_HEADERS,
                  v_headers := Some []\<rparr>)
      else if take (length endBoundary) r = endBoundary then
        VEnd (v\<lparr>v_rest := drop (length endBoundary) r\<rparr>)
      else VThrow Bad_part_boundary (v_enqueued v))"

definition view_HEADERS :: "view \<Rightarrow> vturn" where
  "view_HEADERS v =
     (let bytes = takeWhile (\<lambda>b. b \<noteq> 0x0D) (v_rest v);
          after = drop (length bytes) (v_rest v)
      in
      if length after < 2 then VSuspend v
      else if after ! 1 \<noteq> 0x0A then VThrow Bad_header_CR_without_NL (v_enqueued v)
      else
        let line = decode bytes; v1 = v\<lparr>v_rest := drop 2 after\<rparr> in
        if line = [] then
          (case v_headers v of
             None \<Rightarrow> VThrow TypeError (v_enqueued v)
           | Some hs \<Rightarrow>
               (case parseInt (Headers_get hs (ascii ''Content-Length'')) of
                  None \<Rightarrow> VThrow Missing_invalid_Content_Length (v_enqueued v)
                | Some n \<Rightarrow> VBreak (v1\<lparr>v_contentLength := Some n, v_state := STATE_BODY\<rparr>)))
        else
          let colon = first_index line 0x3A 0 in
          if colon = int (length line) \<or> at line (colon + 1) \<noteq> Some 0x20
          then VThrow Bad_header_no_colon_space (v_enqueued v)
          else
            (case v_headers v of
               None \<Rightarrow> VThrow TypeError (v_enqueued v)
             | Some hs \<Rightarrow>
                 (case Headers_append hs (substring line 0 colon)
                         (substring_from line (colon + 2)) of
                    None \<Rightarrow> VThrow TypeError (v_enqueued v)
                  | Some hs' \<Rightarrow> VBreak (v1\<lparr>v_headers := Some hs'\<rparr>))))"

definition view_BODY :: "view \<Rightarrow> vturn" where
  "view_BODY v =
     (let n = (case v_contentLength v of None \<Rightarrow> 0 | Some n \<Rightarrow> n) in
      if n < 0 then VBackwards
      else if int (length (v_rest v)) < n then VSuspend v
      else VBreak (v\<lparr>v_rest := drop (nat n) (v_rest v),
                     v_enqueued := v_enqueued v @
                       [\<lparr>p_headers = v_headers v, p_body = take (nat n) (v_rest v)\<rparr>],
                     v_headers := None, v_contentLength := None, v_state := STATE_BOUNDARY\<rparr>))"

definition view_turn :: "byte list \<Rightarrow> byte list \<Rightarrow> view \<Rightarrow> vturn" where
  "view_turn midBoundary endBoundary v =
     (case v_state v of
        STATE_BOUNDARY \<Rightarrow> view_BOUNDARY midBoundary endBoundary v
      | STATE_HEADERS \<Rightarrow> view_HEADERS v
      | STATE_BODY \<Rightarrow> view_BODY v)"

definition refines :: "vturn \<Rightarrow> turn \<Rightarrow> bool" where
  "refines vt t =
     (case vt of
        VBreak v \<Rightarrow> (\<exists>s. t = Break s \<and> in_range s \<and> view s = v)
      | VSuspend v \<Rightarrow> (\<exists>s. t = Return s \<and> in_range s \<and> view s = v)
      | VEnd v \<Rightarrow> (\<exists>s. t = Return s \<and> in_range s \<and> view s = v)
      | VThrow e out \<Rightarrow> (\<exists>s. t = Throw e s \<and> enqueued s = out)
      | VBackwards \<Rightarrow> True)"

datatype vdrained = VNeed view | VEnded view | VThrew error "part list" | VUnknown

definition rank :: "pstate \<Rightarrow> nat" where
  "rank st = (case st of STATE_HEADERS \<Rightarrow> 0 | STATE_BOUNDARY \<Rightarrow> 1 | STATE_BODY \<Rightarrow> 2)"

lemma view_turn_decreases:
  assumes "view_turn m e v = VBreak v'"
  shows "3 * length (v_rest v') + rank (v_state v') < 3 * length (v_rest v) + rank (v_state v)"
proof (cases "v_state v")
  case STATE_BOUNDARY
  then show ?thesis using assms
    by (auto simp: view_turn_def view_BOUNDARY_def Let_def rank_def split: if_splits)
next
  case STATE_HEADERS
  then show ?thesis using assms
    by (auto simp: view_turn_def view_HEADERS_def Let_def rank_def split: if_splits option.splits)
next
  case STATE_BODY
  then show ?thesis using assms
    by (auto simp: view_turn_def view_BODY_def Let_def rank_def split: if_splits)
qed

function view_drain :: "byte list \<Rightarrow> byte list \<Rightarrow> view \<Rightarrow> vdrained" where
  "view_drain m e v =
     (case view_turn m e v of
        VBreak v' \<Rightarrow> view_drain m e v'
      | VSuspend v' \<Rightarrow> VNeed v'
      | VEnd v' \<Rightarrow> VEnded v'
      | VThrow er out \<Rightarrow> VThrew er out
      | VBackwards \<Rightarrow> VUnknown)"
  by pat_completeness auto

termination
  by (relation "measure (\<lambda>(m, e, v). 3 * length (v_rest v) + rank (v_state v))")
     (auto dest: view_turn_decreases)

declare view_drain.simps [simp del]

definition newline :: "byte \<Rightarrow> bool" where
  "newline b = (b = 10 \<or> b = 13)"

fun view_loop :: "byte list \<Rightarrow> byte list \<Rightarrow> view \<Rightarrow> nat \<Rightarrow> byte list list \<Rightarrow> outcome option" where
  "view_loop m e v n [] =
     (if v_state v \<noteq> STATE_BOUNDARY \<or> dropWhile newline (v_rest v) \<noteq> []
      then Some \<lparr>emitted = v_enqueued v, ending = Errored Ended_mid_part, reads = Suc n\<rparr>
      else Some \<lparr>emitted = v_enqueued v, ending = Closed, reads = Suc n\<rparr>)"
| "view_loop m e v n (c # cs) =
     (case view_drain m e (v\<lparr>v_rest := v_rest v @ c\<rparr>) of
        VNeed v' \<Rightarrow> view_loop m e v' (Suc n) cs
      | VEnded v' \<Rightarrow> view_loop m e v' (Suc n) cs
      | VThrew er out \<Rightarrow> Some \<lparr>emitted = out, ending = Errored er, reads = Suc n\<rparr>
      | VUnknown \<Rightarrow> None)"

definition appendRest :: "view \<Rightarrow> byte list \<Rightarrow> view" where
  "appendRest v x = v\<lparr>v_rest := v_rest v @ x\<rparr>"

definition start :: view where
  "start = \<lparr>v_state = STATE_BOUNDARY, v_rest = [], v_headers = None, v_contentLength = None,
            v_enqueued = []\<rparr>"

text \<open>
  \<open>crlf_pad\<close> holds of the bytes \<^verbatim>\<open>\r\n\r\n...\<close>, cut anywhere; \<open>boundary_pair\<close>
  holds of two boundaries \<^verbatim>\<open>--p\r\n\<close> and \<^verbatim>\<open>--p--\<close> over the same bytes \<open>p\<close>.
\<close>

fun crlf_pad :: "byte list \<Rightarrow> bool" where
  "crlf_pad [] = True"
| "crlf_pad [a] = (a = 0x0D)"
| "crlf_pad (a # b # r) = (a = 0x0D \<and> b = 0x0A \<and> crlf_pad r)"

definition boundary_pair :: "byte list \<Rightarrow> byte list \<Rightarrow> bool" where
  "boundary_pair m e = (\<exists>p. m = 0x2D # 0x2D # p @ [0x0D, 0x0A] \<and> e = 0x2D # 0x2D # p @ [0x2D, 0x2D])"

section \<open>The source refines the functions on views\<close>

subsection \<open>The operations of the source at positions inside the buffer\<close>

lemma compareLoop_eq: "length a = length b \<Longrightarrow> i \<le> length a \<Longrightarrow> compareLoop a b i = (drop i a = drop i b)"
proof (induction a b i rule: compareLoop.induct)
  case (1 a b i)
  show ?case
  proof (cases "i < length a")
    case True
    then have d: "drop i a = a ! i # drop (Suc i) a" "drop i b = b ! i # drop (Suc i) b"
      using 1(2) by (simp_all add: Cons_nth_drop_Suc)
    show ?thesis using True 1 d by (subst compareLoop.simps) auto
  next
    case False
    then show ?thesis using 1 by (subst compareLoop.simps) simp
  qed
qed

lemma compareArrays_eq [simp]: "compareArrays a b = (a = b)"
  by (auto simp: compareArrays_def compareLoop_eq)

lemma slice_nat: "slice a (int p) (int q) = take (q - p) (drop p a)"
  by (auto simp: slice_def rel_index_def Let_def min_def)

lemma at_nat: "at a (int i) = (if i < length a then Some (a ! i) else None)"
  by (simp add: at_def)

lemma first_index_takeWhile:
  "first_index xs x k = (if x \<in> set xs then int (k + length (takeWhile (\<lambda>y. y \<noteq> x) xs)) else - 1)"
  by (induction xs arbitrary: k) auto

lemma indexOf_nat: "indexOf a x (int k) = first_index (drop k a) x k"
  by (simp add: indexOf_def)

lemma drop_Cons2:
  assumes "drop k b = a # c # r"
  shows "k + 2 \<le> length b" and "drop (k + 2) b = r"
proof -
  have "length (drop k b) = Suc (Suc (length r))" unfolding assms by simp
  then show "k + 2 \<le> length b" by simp
  have "drop (k + 2) b = drop 2 (drop k b)" by (simp add: add.commute)
  also have "\<dots> = r" unfolding assms by simp
  finally show "drop (k + 2) b = r" .
qed

lemma skipBlank_blanks: "skipBlank b (int k) = int (k + blanks (drop k b))"
proof (induction "drop k b" arbitrary: k rule: blanks.induct)
  case (1 a c r)
  then have d: "drop k b = a # c # r" by simp
  note len = drop_Cons2(1) [OF d] and r = drop_Cons2(2) [OF d]
  have sl: "slice b (int k) (int k + 2) = [a, c]"
    using slice_nat [of b k "k + 2"] d by (simp add: ac_simps)
  show ?case
  proof (cases "a = 0x0D \<and> c = 0x0A")
    case True
    have "skipBlank b (int k) = skipBlank b (int k + 2)"
      using len sl True by (subst skipBlank.simps) (simp add: blankLine_def)
    also have "int k + 2 = int (k + 2)" by simp
    also have "skipBlank b (int (k + 2)) = int (k + 2 + blanks (drop (k + 2) b))"
      using 1(1) [OF True, of "k + 2"] r by simp
    finally show ?thesis using d r True by simp
  next
    case False
    have "skipBlank b (int k) = int k"
      using sl False by (subst skipBlank.simps) (auto simp add: blankLine_def)
    then show ?thesis using d False by auto
  qed
next
  case "2_1"
  then have "length b \<le> k" by simp
  then have "skipBlank b (int k) = int k"
    by (subst skipBlank.simps) (simp add: blankLine_def)
  then show ?case using "2_1" [symmetric] by simp
next
  case "2_2"
  have "length (drop k b) = 1" unfolding "2_2" [symmetric] by simp
  then have "length b = k + 1" by simp
  then have "skipBlank b (int k) = int k"
    by (subst skipBlank.simps) (simp add: blankLine_def)
  then show ?case using "2_2" [symmetric] by simp
qed

subsection \<open>A turn of the source does what the turn on the view does\<close>

lemma view_simps [simp]:
  "v_state (view s) = state s" "v_headers (view s) = headers s"
  "v_contentLength (view s) = contentLength s" "v_enqueued (view s) = enqueued s"
  by (simp_all add: view_def)

lemma view_rest_nat: "pos s = int k \<Longrightarrow> v_rest (view s) = drop k (buf s)"
  by (simp add: view_def)

lemma view_rest_update [simp]: "view (s\<lparr>state := a\<rparr>) = (view s)\<lparr>v_state := a\<rparr>"
  "view (s\<lparr>headers := b\<rparr>) = (view s)\<lparr>v_headers := b\<rparr>"
  "view (s\<lparr>contentLength := c\<rparr>) = (view s)\<lparr>v_contentLength := c\<rparr>"
  "view (s\<lparr>enqueued := d\<rparr>) = (view s)\<lparr>v_enqueued := d\<rparr>"
  by (simp_all add: view_def)

lemma view_pos_update: "view (s\<lparr>pos := int n\<rparr>) = (view s)\<lparr>v_rest := drop n (buf s)\<rparr>"
  by (simp add: view_def)

lemma in_range_update [simp]: "in_range (s\<lparr>state := a\<rparr>) = in_range s"
  "in_range (s\<lparr>headers := b\<rparr>) = in_range s"
  "in_range (s\<lparr>contentLength := c\<rparr>) = in_range s"
  "in_range (s\<lparr>enqueued := d\<rparr>) = in_range s"
  by (simp_all add: in_range_def)

lemma in_range_pos: "in_range (s\<lparr>pos := int n\<rparr>) = (n \<le> length (buf s))"
  by (simp add: in_range_def)

lemma blanks_le: "blanks r \<le> length r"
  by (induction r rule: blanks.induct) auto

lemma in_rangeE:
  assumes "in_range s"
  obtains k where "pos s = int k" and "k \<le> length (buf s)" and "v_rest (view s) = drop k (buf s)"
proof -
  from assms have "pos s = int (nat (pos s))" "nat (pos s) \<le> length (buf s)"
    by (auto simp: in_range_def)
  then show thesis using that [of "nat (pos s)"] by (simp add: view_def)
qed

lemma refines_BOUNDARY:
  assumes "in_range s" and st: "state s = STATE_BOUNDARY"
  shows "refines (view_BOUNDARY m e (view s)) (case_BOUNDARY m e s)"
proof -
  from assms(1) obtain k where k: "pos s = int k" "k \<le> length (buf s)" "v_rest (view s) = drop k (buf s)"
    by (rule in_rangeE)
  define j where "j = blanks (drop k (buf s))"
  define p where "p = k + j"
  define r where "r = drop p (buf s)"
  have kj: "p \<le> length (buf s)"
    using blanks_le [of "drop k (buf s)"] k(2) by (simp add: j_def p_def)
  have sk: "skipBlank (buf s) (pos s) = int p"
    unfolding p_def j_def k(1) by (rule skipBlank_blanks)
  have r: "drop j (drop k (buf s)) = r" by (simp add: r_def p_def add.commute)
  have lr: "int (length (buf s)) < int p + int (length m) \<longleftrightarrow> length r < length m"
    using kj by (simp add: r_def) arith
  have sm: "slice (buf s) (int p) (int p + int (length m)) = take (length m) r"
    using slice_nat [of "buf s" p "p + length m"] by (simp add: r_def)
  have se: "slice (buf s) (int p) (int p + int (length e)) = take (length e) r"
    using slice_nat [of "buf s" p "p + length e"] by (simp add: r_def)
  define s1 where "s1 = s\<lparr>pos := int p\<rparr>"
  have s1: "pos s1 = int p" "buf s1 = buf s"
    by (simp_all add: s1_def)
  have cb: "case_BOUNDARY m e s =
       (if length r < length m then Return s1
        else if take (length m) r \<noteq> m then
          (if take (length e) r = e
           then Return (s1\<lparr>state := STATE_BOUNDARY, pos := int (p + length e)\<rparr>)
           else Throw Bad_part_boundary s1)
        else Break (s1\<lparr>pos := int (p + length m), state := STATE_HEADERS, headers := Some []\<rparr>))"
    unfolding case_BOUNDARY_def Let_def sk s1_def [symmetric]
    by (simp add: s1 lr sm se)
  have vb: "view_BOUNDARY m e (view s) =
       (if length r < length m then VSuspend ((view s)\<lparr>v_rest := r\<rparr>)
        else if take (length m) r = m then
          VBreak ((view s)\<lparr>v_rest := drop (length m) r, v_state := STATE_HEADERS, v_headers := Some []\<rparr>)
        else if take (length e) r = e then VEnd ((view s)\<lparr>v_rest := drop (length e) r\<rparr>)
        else VThrow Bad_part_boundary (enqueued s))"
    unfolding view_BOUNDARY_def Let_def k(3) j_def [symmetric] r by simp
  have v1: "view s1 = (view s)\<lparr>v_rest := r\<rparr>" "in_range s1"
    using kj by (simp_all add: s1_def view_pos_update r_def in_range_pos)
  have lenr: "length r = length (buf s) - p" by (simp add: r_def)
  have dd: "\<And>n. drop (p + n) (buf s) = drop n r" by (simp add: r_def add.commute)
  have nn: "\<And>n. nat (int p + int n) = p + n" by simp
  show ?thesis
  proof (cases "length r < length m")
    case True
    then show ?thesis unfolding cb vb using v1 by (simp add: refines_def)
  next
    case False
    show ?thesis
    proof (cases "take (length m) r = m")
      case True
      with False show ?thesis unfolding cb vb using kj lenr
        by (simp add: refines_def in_range_def view_def s1_def nn dd)
    next
      case nm: False
      show ?thesis
      proof (cases "take (length e) r = e")
        case True
        have "length (take (length e) r) = length e" by (simp only: True)
        then have "length e \<le> length r" by simp
        then show ?thesis using False nm True st kj lenr unfolding cb vb
          by (simp add: refines_def in_range_def view_def s1_def nn dd)
      next
        case ne: False
        with False nm show ?thesis unfolding cb vb
          by (simp add: refines_def s1_def)
      qed
    qed
  qed
qed

lemma refines_BODY:
  assumes "in_range s"
  shows "refines (view_BODY (view s)) (case_BODY s)"
proof -
  from assms obtain k where k: "pos s = int k" "k \<le> length (buf s)" "v_rest (view s) = drop k (buf s)"
    by (rule in_rangeE)
  define n where "n = (case contentLength s of None \<Rightarrow> 0 | Some n \<Rightarrow> n)"
  show ?thesis
  proof (cases "n < 0")
    case True
    then show ?thesis
      by (simp add: view_BODY_def refines_def n_def)
  next
    case False
    then obtain c where c: "n = int c" by (metis nat_0_le not_le_imp_less not_less_iff_gr_or_eq linorder_not_less)
    have sl: "slice (buf s) (int k) (int k + int c) = take c (drop k (buf s))"
      using slice_nat [of "buf s" k "k + c"] by simp
    have lt: "int (length (buf s)) < int k + int c \<longleftrightarrow> int (length (buf s) - k) < int c"
      using k(2) by arith
    have cb: "case_BODY s =
        (if int (length (buf s) - k) < int c then Return s
         else Break (s\<lparr>pos := int (k + c),
                     enqueued := enqueued s @
                       [\<lparr>p_headers = headers s, p_body = take c (drop k (buf s))\<rparr>],
                     headers := None, contentLength := None, state := STATE_BOUNDARY\<rparr>))"
      unfolding case_BODY_def n_def [symmetric] Let_def k(1) c sl lt by simp
    have vb: "view_BODY (view s) =
        (if int (length (buf s) - k) < int c then VSuspend (view s)
         else VBreak ((view s)\<lparr>v_rest := drop c (drop k (buf s)),
                     v_enqueued := enqueued s @
                       [\<lparr>p_headers = headers s, p_body = take c (drop k (buf s))\<rparr>],
                     v_headers := None, v_contentLength := None, v_state := STATE_BOUNDARY\<rparr>))"
      unfolding view_BODY_def Let_def k(3)
      using c by (simp add: n_def)
    show ?thesis
    proof (cases "int (length (buf s) - k) < int c")
      case True
      then show ?thesis unfolding cb vb using assms by (simp add: refines_def)
    next
      case False
      then have "k + c \<le> length (buf s)" using k(2) by simp
      with False show ?thesis unfolding cb vb
        by (simp add: refines_def in_range_def view_def add.commute nat_int_add)
    qed
  qed
qed

lemma drop_Cons1:
  assumes "drop k b = a # r"
  shows "drop (Suc k) b = r" and "b ! k = a" and "k < length b"
proof -
  have "drop (Suc k) b = tl (drop k b)" by (simp add: drop_Suc tl_drop)
  then show "drop (Suc k) b = r" by (simp add: assms)
  show "k < length b" using assms by (cases "k < length b") auto
  then show "b ! k = a" using assms by (simp add: hd_drop_conv_nth [symmetric])
qed

lemma takeWhile_CR:
  assumes "x \<in> set r"
  shows "\<exists>t. drop (length (takeWhile (\<lambda>b. b \<noteq> x) r)) r = x # t"
  using assms by (induction r) auto

lemma refines_HEADERS:
  assumes "in_range s"
  shows "refines (view_HEADERS (view s)) (case_HEADERS s)"
proof -
  from assms obtain k where k: "pos s = int k" "k \<le> length (buf s)" "v_rest (view s) = drop k (buf s)"
    by (rule in_rangeE)
  define r where "r = drop k (buf s)"
  define bytes where "bytes = takeWhile (\<lambda>b. b \<noteq> 0x0D) r"
  define after where "after = drop (length bytes) r"
  have cr: "indexOf (buf s) 0x0D (pos s) = (if 0x0D \<in> set r then int (k + length bytes) else - 1)"
    by (simp add: k(1) indexOf_nat first_index_takeWhile r_def bytes_def)
  note vh = view_HEADERS_def Let_def k(3) r_def [symmetric] bytes_def [symmetric] after_def [symmetric]
  show ?thesis
  proof (cases "0x0D \<in> set r")
    case False
    then have "bytes = r" by (auto simp: bytes_def)
    then have "after = []" by (simp add: after_def)
    then show ?thesis
      unfolding vh using False assms by (simp add: case_HEADERS_def cr refines_def)
  next
    case True
    then obtain t where t: "after = 0x0D # t"
      using takeWhile_CR [of "0x0D" r] by (auto simp: after_def bytes_def)
    define q where "q = k + length bytes"
    have dq: "drop q (buf s) = 0x0D # t"
      using t by (simp add: after_def r_def q_def add.commute)
    note q1 = drop_Cons1 [OF dq]
    have sl: "slice (buf s) (int k) (int q) = bytes"
      using slice_nat [of "buf s" k q]
      by (simp add: r_def [symmetric] bytes_def takeWhile_eq_take [symmetric] q_def)
    have cr': "indexOf (buf s) 0x0D (int k) = int q"
      using cr True by (simp add: q_def k(1))
    show ?thesis
    proof (cases t)
      case Nil
      then have "length after < 2" using t by simp
      moreover have "length (drop q (buf s)) = 1" unfolding dq Nil by simp
      then have "int (length (buf s)) = int q + 1" using q1(3) by simp
      ultimately show ?thesis
        unfolding vh using assms by (simp add: case_HEADERS_def k(1) cr' refines_def)
    next
      case (Cons c t')
      then have a2: "\<not> length after < 2" "after ! 1 = c" "drop 2 after = t'" using t by simp_all
      have dq1: "drop (Suc q) (buf s) = c # t'" using q1(1) Cons by simp
      note q2 = drop_Cons1 [OF dq1]
      have ne: "int (length (buf s)) \<noteq> int q + 1" using q2(3) by simp
      have atc: "at (buf s) (int q + 1) = Some c"
        using at_nat [of "buf s" "Suc q"] q2 by (simp add: add.commute)
      have dr: "drop (q + 2) (buf s) = t'" using q2(1) by simp
      have l2: "q + 2 \<le> length (buf s)" using q2(3) by simp
      define s1 where "s1 = s\<lparr>pos := int q + 2\<rparr>"
      have "nat (int q + 2) = q + 2" by simp
      then have s1: "in_range s1" "view s1 = (view s)\<lparr>v_rest := t'\<rparr>" "enqueued s1 = enqueued s"
          "headers s1 = headers s"
        using l2 dr by (simp_all add: s1_def in_range_def view_def)
      have ch: "case_HEADERS s =
       (if c \<noteq> 0x0A then Throw Bad_header_CR_without_NL s
        else
        let line = decode bytes in
        if line = [] then
          (case headers s1 of
             None \<Rightarrow> Throw TypeError s1
           | Some hs \<Rightarrow>
               (case parseInt (Headers_get hs (ascii ''Content-Length'')) of
                  None \<Rightarrow> Throw Missing_invalid_Content_Length s1
                | Some n \<Rightarrow> Break (s1\<lparr>contentLength := Some n, state := STATE_BODY\<rparr>)))
        else
          let colon = first_index line 0x3A 0;
              name = substring line 0 colon
          in
          if colon = int (length line) \<or> at line (colon + 1) \<noteq> Some 0x20
          then Throw Bad_header_no_colon_space s1
          else
            (case headers s1 of
               None \<Rightarrow> Throw TypeError s1
             | Some hs \<Rightarrow>
                 (case Headers_append hs name (substring_from line (colon + 2)) of
                    None \<Rightarrow> Throw TypeError s1
                  | Some hs' \<Rightarrow> Break (s1\<lparr>headers := Some hs'\<rparr>))))"
        unfolding case_HEADERS_def k(1) cr' Let_def s1_def [symmetric] sl
        using ne atc by simp
      show ?thesis
        unfolding vh ch using a2 s1
        by (auto simp: refines_def split: option.splits)
    qed
  qed
qed

lemma refines_turn:
  assumes "in_range s"
  shows "refines (view_turn m e (view s)) (turn m e s)"
  using assms refines_BOUNDARY [of s m e] refines_HEADERS [of s] refines_BODY [of s]
  by (cases "state s") (simp_all add: view_turn_def turn_def)

lemma view_drain_processBuf:
  assumes "in_range s"
  shows "case view_drain m e (view s) of
           VNeed v \<Rightarrow> (\<exists>t. processBuf m e s = Some (Returned t) \<and> in_range t \<and> view t = v)
         | VEnded v \<Rightarrow> (\<exists>t. processBuf m e s = Some (Returned t) \<and> in_range t \<and> view t = v)
         | VThrew er out \<Rightarrow> (\<exists>t. processBuf m e s = Some (Threw er t) \<and> enqueued t = out)
         | VUnknown \<Rightarrow> True"
  using assms
proof (induction m e "view s" arbitrary: s rule: view_drain.induct)
  case (1 m e)
  note r = refines_turn [OF 1(2), of m e]
  show ?case
  proof (cases "view_turn m e (view s)")
    case (VBreak v')
    then obtain s' where s': "turn m e s = Break s'" "in_range s'" "view s' = v'"
      using r by (auto simp: refines_def)
    have a: "view_drain m e (view s) = view_drain m e (view s')"
      using VBreak s' by (subst view_drain.simps) simp
    have b: "processBuf m e s = processBuf m e s'"
      using s' by (subst processBuf.simps) simp
    have vb: "view_turn m e (view s) = VBreak (view s')"
      using VBreak s'(3) by simp
    show ?thesis unfolding a b by (rule 1(1) [OF vb s'(2)])
  next
    case (VSuspend v')
    then obtain s' where s': "turn m e s = Return s'" "in_range s'" "view s' = v'"
      using r by (auto simp: refines_def)
    have "view_drain m e (view s) = VNeed v'"
      using VSuspend by (subst view_drain.simps) simp
    moreover have "processBuf m e s = Some (Returned s')"
      using s' by (subst processBuf.simps) simp
    ultimately show ?thesis using s' by simp
  next
    case (VEnd v')
    then obtain s' where s': "turn m e s = Return s'" "in_range s'" "view s' = v'"
      using r by (auto simp: refines_def)
    have "view_drain m e (view s) = VEnded v'"
      using VEnd by (subst view_drain.simps) simp
    moreover have "processBuf m e s = Some (Returned s')"
      using s' by (subst processBuf.simps) simp
    ultimately show ?thesis using s' by simp
  next
    case (VThrow er out)
    then obtain s' where s': "turn m e s = Throw er s'" "enqueued s' = out"
      using r by (auto simp: refines_def)
    have "view_drain m e (view s) = VThrew er out"
      using VThrow by (subst view_drain.simps) simp
    moreover have "processBuf m e s = Some (Threw er s')"
      using s' by (subst processBuf.simps) simp
    ultimately show ?thesis using s' by simp
  next
    case VBackwards
    then have "view_drain m e (view s) = VUnknown"
      by (subst view_drain.simps) simp
    then show ?thesis by simp
  qed
qed

subsection \<open>The main loop\<close>

lemma trimNewlines_nat:
  "k \<le> length b \<Longrightarrow>
   snd (trimNewlines b (int k) (int (length b - k))) = int (length (dropWhile newline (drop k b)))"
proof (induction "length b - k" arbitrary: k)
  case 0
  then show ?case by (subst trimNewlines.simps) simp
next
  case (Suc n)
  then have lt: "k < length b" by simp
  then have d: "drop k b = b ! k # drop (Suc k) b" by (simp add: Cons_nth_drop_Suc)
  have at: "at b (int k) = Some (b ! k)" using lt by (simp add: at_nat)
  show ?case
  proof (cases "newline (b ! k)")
    case True
    have "trimNewlines b (int k) (int (length b - k)) = trimNewlines b (int k + 1) (int (length b - k) - 1)"
      using True lt at by (subst trimNewlines.simps) (auto simp: newline_def)
    also have "int k + 1 = int (Suc k)" by simp
    also have "int (length b - k) - 1 = int (length b - Suc k)" using lt by simp
    finally show ?thesis using Suc(1) [of "Suc k"] Suc(2) lt True d by simp
  next
    case False
    have "trimNewlines b (int k) (int (length b - k)) = (int k, int (length b - k))"
      using False at by (subst trimNewlines.simps) (auto simp: newline_def)
    then show ?thesis using False d lt by simp
  qed
qed

lemma appendChunk_view:
  assumes "in_range s"
  shows "\<exists>t. appendChunk s c = Inr t \<and> in_range t \<and> view t = (view s)\<lparr>v_rest := v_rest (view s) @ c\<rparr>
           \<and> enqueued t = enqueued s"
proof -
  from assms obtain k where k: "pos s = int k" "k \<le> length (buf s)" "v_rest (view s) = drop k (buf s)"
    by (rule in_rangeE)
  show ?thesis
  proof (cases "k = length (buf s)")
    case True
    then show ?thesis using k
      by (simp add: appendChunk_def Let_def in_range_def view_def)
  next
    case False
    then have lt: "k < length (buf s)" using k(2) by simp
    have sf: "slice_from (buf s) (int k) = drop k (buf s)"
      using lt by (simp add: slice_from_def rel_index_def)
    have nb: "nat (int (length (buf s)) - int k) = length (buf s) - k" by simp
    show ?thesis using lt k(3)
      by (simp add: appendChunk_def Let_def k(1) sf nb in_range_def view_def)
  qed
qed

lemma view_loop_mainLoop:
  assumes "in_range s" and "view_loop m e (view s) n cs = Some out"
  shows "mainLoop m e s n cs = Some out"
  using assms
proof (induction cs arbitrary: s n)
  case Nil
  from Nil(1) obtain k where k: "pos s = int k" "k \<le> length (buf s)" "v_rest (view s) = drop k (buf s)"
    by (rule in_rangeE)
  have "int (length (buf s)) - int k = int (length (buf s) - k)" using k(2) by simp
  then have t: "snd (trimNewlines (buf s) (pos s) (int (length (buf s)) - pos s)) > 0
       \<longleftrightarrow> dropWhile newline (v_rest (view s)) \<noteq> []"
    using trimNewlines_nat [OF k(2)] by (simp add: k)
  show ?case using Nil(2) unfolding mainLoop.simps view_loop.simps Let_def t
    by (auto split: if_splits)
next
  case (Cons c cs)
  from appendChunk_view [OF Cons(2), of c] obtain t where
    t: "appendChunk s c = Inr t" "in_range t" "view t = (view s)\<lparr>v_rest := v_rest (view s) @ c\<rparr>"
       "enqueued t = enqueued s"
    by blast
  note d = view_drain_processBuf [OF t(2), of m e]
  show ?case
  proof (cases "view_drain m e (view t)")
    case (VNeed v)
    then obtain u where u: "processBuf m e t = Some (Returned u)" "in_range u" "view u = v"
      using d by auto
    have "view_loop m e (view u) (Suc n) cs = Some out"
      using Cons(3) VNeed t(3) u(3) by simp
    then show ?thesis using Cons(1) [OF u(2)] t(1) u(1) by simp
  next
    case (VEnded v)
    then obtain u where u: "processBuf m e t = Some (Returned u)" "in_range u" "view u = v"
      using d by auto
    have "view_loop m e (view u) (Suc n) cs = Some out"
      using Cons(3) VEnded t(3) u(3) by simp
    then show ?thesis using Cons(1) [OF u(2)] t(1) u(1) by simp
  next
    case (VThrew er ps)
    then obtain u where u: "processBuf m e t = Some (Threw er u)" "enqueued u = ps"
      using d by auto
    then show ?thesis using Cons(3) VThrew t by simp
  next
    case VUnknown
    then show ?thesis using Cons(3) t(3) by simp
  qed
qed

subsection \<open>More bytes behind the buffer\<close>

text \<open>
  A drain that returned to wait for bytes goes on, when bytes are appended, as the drain
  of the longer buffer does; a drain that ended otherwise is not changed by them.
\<close>

lemma appendRest_simps [simp]:
  "v_state (appendRest v x) = v_state v" "v_rest (appendRest v x) = v_rest v @ x"
  "v_headers (appendRest v x) = v_headers v" "v_contentLength (appendRest v x) = v_contentLength v"
  "v_enqueued (appendRest v x) = v_enqueued v"
  "appendRest v [] = v" "appendRest (appendRest v x) y = appendRest v (x @ y)"
  by (simp_all add: appendRest_def)

lemma blanks_append: "blanks (a @ x) = blanks a + blanks (drop (blanks a) a @ x)"
  by (induction a rule: blanks.induct) auto

lemma blanks_drop [simp]: "blanks (drop (blanks a) a) = 0"
  by (induction a rule: blanks.induct) auto

lemma blanks_0_append: "blanks r = 0 \<Longrightarrow> 2 \<le> length r \<Longrightarrow> blanks (r @ x) = 0"
  by (cases r rule: blanks.cases) (auto split: if_splits)

lemma view_BOUNDARY_ext:
  assumes "2 \<le> length m" "length e \<le> length m"
  shows "case view_BOUNDARY m e v of
      VBreak v' \<Rightarrow> view_BOUNDARY m e (appendRest v x) = VBreak (appendRest v' x)
    | VEnd v' \<Rightarrow> view_BOUNDARY m e (appendRest v x) = VEnd (appendRest v' x)
    | VThrow er out \<Rightarrow> view_BOUNDARY m e (appendRest v x) = VThrow er out
    | VBackwards \<Rightarrow> view_BOUNDARY m e (appendRest v x) = VBackwards
    | VSuspend v' \<Rightarrow> view_BOUNDARY m e (appendRest v x) = view_BOUNDARY m e (appendRest v' x)"
proof -
  define r0 where "r0 = v_rest v"
  define j where "j = blanks r0"
  define r where "r = drop j r0"
  have jl: "j \<le> length r0" by (simp add: j_def blanks_le)
  have b: "blanks (r0 @ x) = j + blanks (r @ x)"
    using blanks_append [of r0 x] by (simp add: j_def r_def)
  have d: "drop (blanks (r0 @ x)) (r0 @ x) = drop (blanks (r @ x)) (r @ x)"
  proof -
    have "drop (blanks (r0 @ x)) (r0 @ x) = drop (j + blanks (r @ x)) (r0 @ x)"
      by (simp only: b)
    also have "\<dots> = drop (blanks (r @ x)) (drop j (r0 @ x))"
      by (metis drop_drop add.commute)
    also have "drop j (r0 @ x) = r @ x" using jl by (simp add: r_def)
    finally show ?thesis .
  qed
  have e1: "v_rest (appendRest v x) = r0 @ x" by (simp add: r0_def)
  have e2: "v_rest (appendRest (v\<lparr>v_rest := r\<rparr>) x) = r @ x" by simp
  show ?thesis
  proof (cases "length r < length m")
    case True
    then have "view_BOUNDARY m e v = VSuspend (v\<lparr>v_rest := r\<rparr>)"
      by (simp add: view_BOUNDARY_def Let_def r0_def [symmetric] j_def [symmetric] r_def [symmetric])
    moreover have "view_BOUNDARY m e (appendRest v x) = view_BOUNDARY m e (appendRest (v\<lparr>v_rest := r\<rparr>) x)"
      unfolding view_BOUNDARY_def Let_def e1 e2 d blanks_drop drop_0
      by (simp add: appendRest_def)
    ultimately show ?thesis by simp
  next
    case False
    then have l2: "2 \<le> length r" using assms(1) by simp
    have "blanks r = 0" by (simp add: r_def j_def)
    then have "blanks (r @ x) = 0" using l2 by (rule blanks_0_append)
    then have d': "drop (blanks (r0 @ x)) (r0 @ x) = r @ x" using d by simp
    have le: "length e \<le> length r" using False assms(2) by simp
    have v0: "view_BOUNDARY m e v =
       (if take (length m) r = m then
          VBreak (v\<lparr>v_rest := drop (length m) r, v_state := STATE_HEADERS, v_headers := Some []\<rparr>)
        else if take (length e) r = e then VEnd (v\<lparr>v_rest := drop (length e) r\<rparr>)
        else VThrow Bad_part_boundary (v_enqueued v))"
      unfolding view_BOUNDARY_def Let_def r0_def [symmetric] j_def [symmetric] r_def [symmetric]
      using False by simp
    have vx: "view_BOUNDARY m e (appendRest v x) =
       (if take (length m) r = m then
          VBreak (v\<lparr>v_rest := drop (length m) r @ x, v_state := STATE_HEADERS, v_headers := Some []\<rparr>)
        else if take (length e) r = e then VEnd (v\<lparr>v_rest := drop (length e) r @ x\<rparr>)
        else VThrow Bad_part_boundary (v_enqueued v))"
      unfolding view_BOUNDARY_def Let_def e1 d'
      using False le by (simp add: appendRest_def)
    show ?thesis unfolding v0 vx by (simp add: appendRest_def)
  qed
qed

lemma view_HEADERS_ext:
  "case view_HEADERS v of
      VBreak v' \<Rightarrow> view_HEADERS (appendRest v x) = VBreak (appendRest v' x)
    | VEnd v' \<Rightarrow> view_HEADERS (appendRest v x) = VEnd (appendRest v' x)
    | VThrow er out \<Rightarrow> view_HEADERS (appendRest v x) = VThrow er out
    | VBackwards \<Rightarrow> view_HEADERS (appendRest v x) = VBackwards
    | VSuspend v' \<Rightarrow> view_HEADERS (appendRest v x) = view_HEADERS (appendRest v' x)"
proof -
  define r where "r = v_rest v"
  define bytes where "bytes = takeWhile (\<lambda>b. b \<noteq> 0x0D) r"
  define after where "after = drop (length bytes) r"
  show ?thesis
  proof (cases "length after < 2")
    case True
    have "view_HEADERS v = VSuspend v"
      unfolding view_HEADERS_def Let_def r_def [symmetric] bytes_def [symmetric] after_def [symmetric]
      using True by simp
    then show ?thesis by simp
  next
    case False
    then have "after \<noteq> []" by auto
    then have "length bytes < length r" by (simp add: after_def)
    then have "bytes \<noteq> r" by auto
    then have "\<exists>b \<in> set r. \<not> b \<noteq> 0x0D"
      unfolding bytes_def by (simp add: takeWhile_eq_all_conv)
    then have tw: "takeWhile (\<lambda>b. b \<noteq> 0x0D) (r @ x) = bytes"
      by (auto simp: bytes_def takeWhile_append1)
    have lb: "length bytes \<le> length r" by (simp add: bytes_def length_takeWhile_le)
    have a: "drop (length bytes) (r @ x) = after @ x" using lb by (simp add: after_def)
    have n: "(after @ x) ! 1 = after ! 1" using False by (simp add: nth_append)
    have d2: "drop 2 (after @ x) = drop 2 after @ x" using False by simp
    have l2: "\<not> length (after @ x) < 2" using False by simp
    have vx: "v_rest (appendRest v x) = r @ x" by (simp add: r_def)
    show ?thesis
      unfolding view_HEADERS_def Let_def vx r_def [symmetric] tw bytes_def [symmetric] a
          after_def [symmetric] n d2
      using False l2
      by (auto simp: appendRest_def split: option.splits)
  qed
qed

lemma view_BODY_ext:
  "case view_BODY v of
      VBreak v' \<Rightarrow> view_BODY (appendRest v x) = VBreak (appendRest v' x)
    | VEnd v' \<Rightarrow> view_BODY (appendRest v x) = VEnd (appendRest v' x)
    | VThrow er out \<Rightarrow> view_BODY (appendRest v x) = VThrow er out
    | VBackwards \<Rightarrow> view_BODY (appendRest v x) = VBackwards
    | VSuspend v' \<Rightarrow> view_BODY (appendRest v x) = view_BODY (appendRest v' x)"
  by (auto simp: view_BODY_def Let_def appendRest_def split: option.splits)

lemma view_turn_ext:
  assumes "2 \<le> length m" "length e \<le> length m"
  shows "case view_turn m e v of
      VBreak v' \<Rightarrow> view_turn m e (appendRest v x) = VBreak (appendRest v' x)
    | VEnd v' \<Rightarrow> view_turn m e (appendRest v x) = VEnd (appendRest v' x)
    | VThrow er out \<Rightarrow> view_turn m e (appendRest v x) = VThrow er out
    | VBackwards \<Rightarrow> view_turn m e (appendRest v x) = VBackwards
    | VSuspend v' \<Rightarrow> view_turn m e (appendRest v x) = view_turn m e (appendRest v' x)"
proof (cases "v_state v")
  case STATE_BOUNDARY
  have "\<And>v'. view_BOUNDARY m e v = VSuspend v' \<Longrightarrow> v_state v' = STATE_BOUNDARY"
    using STATE_BOUNDARY by (auto simp: view_BOUNDARY_def Let_def split: if_splits)
  then show ?thesis
    using view_BOUNDARY_ext [OF assms, of v x] STATE_BOUNDARY
    by (auto simp: view_turn_def split: vturn.splits)
next
  case STATE_HEADERS
  have "\<And>v'. view_HEADERS v = VSuspend v' \<Longrightarrow> v_state v' = STATE_HEADERS"
    using STATE_HEADERS by (auto simp: view_HEADERS_def Let_def split: if_splits option.splits)
  then show ?thesis
    using view_HEADERS_ext [of v x] STATE_HEADERS
    by (auto simp: view_turn_def split: vturn.splits)
next
  case STATE_BODY
  have "\<And>v'. view_BODY v = VSuspend v' \<Longrightarrow> v_state v' = STATE_BODY"
    using STATE_BODY by (auto simp: view_BODY_def Let_def split: if_splits option.splits)
  then show ?thesis
    using view_BODY_ext [of v x] STATE_BODY
    by (auto simp: view_turn_def split: vturn.splits)
qed

lemma view_drain_ext:
  assumes "2 \<le> length m" "length e \<le> length m"
  shows "case view_drain m e v of
      VNeed v' \<Rightarrow> view_drain m e (appendRest v x) = view_drain m e (appendRest v' x)
    | VEnded v' \<Rightarrow> view_drain m e (appendRest v x) = VEnded (appendRest v' x)
    | VThrew er out \<Rightarrow> view_drain m e (appendRest v x) = VThrew er out
    | VUnknown \<Rightarrow> view_drain m e (appendRest v x) = VUnknown"
  using assms
proof (induction m e v rule: view_drain.induct)
  case (1 m e v)
  note t = view_turn_ext [OF 1(2,3), of v x]
  show ?case
  proof (cases "view_turn m e v")
    case (VBreak v')
    then have a: "view_drain m e v = view_drain m e v'" by (subst view_drain.simps) simp
    have "view_turn m e (appendRest v x) = VBreak (appendRest v' x)" using t VBreak by simp
    then have b: "view_drain m e (appendRest v x) = view_drain m e (appendRest v' x)"
      by (subst view_drain.simps) simp
    show ?thesis unfolding a b by (rule 1(1) [OF VBreak 1(2,3)])
  next
    case (VSuspend v')
    then have a: "view_drain m e v = VNeed v'" by (subst view_drain.simps) simp
    have "view_turn m e (appendRest v x) = view_turn m e (appendRest v' x)" using t VSuspend by simp
    then have "view_drain m e (appendRest v x) = view_drain m e (appendRest v' x)"
      by (simp only: view_drain.simps [of m e "appendRest v x"]
          view_drain.simps [of m e "appendRest v' x"])
    then show ?thesis unfolding a by simp
  next
    case (VEnd v')
    then have a: "view_drain m e v = VEnded v'" by (subst view_drain.simps) simp
    have "view_turn m e (appendRest v x) = VEnd (appendRest v' x)" using t VEnd by simp
    then have "view_drain m e (appendRest v x) = VEnded (appendRest v' x)"
      by (subst view_drain.simps) simp
    then show ?thesis unfolding a by simp
  next
    case (VThrow er out)
    then have a: "view_drain m e v = VThrew er out" by (subst view_drain.simps) simp
    have "view_turn m e (appendRest v x) = VThrow er out" using t VThrow by simp
    then have "view_drain m e (appendRest v x) = VThrew er out"
      by (subst view_drain.simps) simp
    then show ?thesis unfolding a by simp
  next
    case VBackwards
    then have a: "view_drain m e v = VUnknown" by (subst view_drain.simps) simp
    have "view_turn m e (appendRest v x) = VBackwards" using t VBackwards by simp
    then have "view_drain m e (appendRest v x) = VUnknown"
      by (subst view_drain.simps) simp
    then show ?thesis unfolding a by simp
  qed
qed

subsection \<open>Chunks after the end boundary\<close>

lemma crlf_pad_rest: "crlf_pad p \<Longrightarrow> length (drop (blanks p) p) \<le> 1"
  by (induction p rule: crlf_pad.induct) auto

lemma crlf_pad_drop: "crlf_pad (a @ y) \<Longrightarrow> crlf_pad (drop (blanks a) a @ y)"
  by (induction a rule: blanks.induct) auto

lemma crlf_pad_prefix: "crlf_pad (a @ y) \<Longrightarrow> crlf_pad a"
proof (induction a rule: crlf_pad.induct)
  case (2 a)
  then show ?case by (cases y) auto
qed auto

lemma crlf_pad_newline: "crlf_pad p \<Longrightarrow> dropWhile newline p = []"
  by (induction p rule: crlf_pad.induct) (auto simp: newline_def)

lemma crlf_pad_replicate: "crlf_pad (concat (replicate k blankLine))"
  by (induction k) (auto simp: blankLine_def)

lemma view_loop_padding:
  assumes "2 \<le> length m"
  shows "v_state v = STATE_BOUNDARY \<Longrightarrow> crlf_pad (v_rest v @ concat cs) \<Longrightarrow>
    view_loop m e v n cs =
      Some \<lparr>emitted = v_enqueued v, ending = Closed, reads = Suc (n + length cs)\<rparr>"
proof (induction cs arbitrary: v n)
  case Nil
  then show ?case by (simp add: crlf_pad_newline)
next
  case (Cons c cs)
  define w where "w = v\<lparr>v_rest := v_rest v @ c\<rparr>"
  define r where "r = drop (blanks (v_rest w)) (v_rest w)"
  have p: "crlf_pad (v_rest w @ concat cs)" using Cons(3) by (simp add: w_def)
  then have "crlf_pad (v_rest w)" by (rule crlf_pad_prefix)
  then have "length r \<le> 1" unfolding r_def by (rule crlf_pad_rest)
  then have "length r < length m" using assms by simp
  then have "view_turn m e w = VSuspend (w\<lparr>v_rest := r\<rparr>)"
    using Cons(2) by (simp add: view_turn_def view_BOUNDARY_def Let_def r_def w_def)
  then have d: "view_drain m e w = VNeed (w\<lparr>v_rest := r\<rparr>)"
    by (subst view_drain.simps) simp
  have "crlf_pad (r @ concat cs)" unfolding r_def using p by (rule crlf_pad_drop)
  then have "view_loop m e (w\<lparr>v_rest := r\<rparr>) (Suc n) cs =
      Some \<lparr>emitted = v_enqueued (w\<lparr>v_rest := r\<rparr>), ending = Closed, reads = Suc (Suc n + length cs)\<rparr>"
    using Cons(2) by (intro Cons(1)) (simp_all add: w_def)
  then show ?case using d by (simp add: w_def [symmetric]) (simp add: w_def)
qed

lemma view_drain_ended_state:
  "view_drain m e v = VEnded v' \<Longrightarrow> v_state v' = STATE_BOUNDARY"
proof (induction m e v rule: view_drain.induct)
  case (1 m e v)
  show ?case
  proof (cases "view_turn m e v")
    case (VBreak w)
    then have "view_drain m e v = view_drain m e w" by (subst view_drain.simps) simp
    then show ?thesis using 1(1) [OF VBreak] 1(2) by simp
  next
    case (VEnd w)
    then have "view_drain m e v = VEnded w" by (subst view_drain.simps) simp
    then have "w = v'" using 1(2) by simp
    then show ?thesis using VEnd
      by (auto simp: view_turn_def view_BOUNDARY_def view_HEADERS_def view_BODY_def Let_def
          split: pstate.splits if_splits option.splits)
  qed (use 1(2) in \<open>subst (asm) view_drain.simps, simp\<close>)+
qed

lemma view_loop_chunks:
  assumes m: "2 \<le> length m" "length e \<le> length m"
  shows "view_drain m e (appendRest v (concat cs)) = VEnded vE \<Longrightarrow>
    view_drain m e v = VNeed v \<Longrightarrow> crlf_pad (v_rest vE) \<Longrightarrow>
    view_loop m e v n cs =
      Some \<lparr>emitted = v_enqueued vE, ending = Closed, reads = Suc (n + length cs)\<rparr>"
proof (induction cs arbitrary: v n)
  case Nil
  then show ?case by simp
next
  case (Cons c cs)
  define w where "w = appendRest v c"
  have all: "view_drain m e (appendRest w (concat cs)) = VEnded vE"
    using Cons(2) by (simp add: w_def)
  note x = view_drain_ext [OF m, of w "concat cs"]
  note x0 = view_drain_ext [OF m, of w "[]"]
  have vl: "view_loop m e v n (c # cs) =
      (case view_drain m e w of
        VNeed v' \<Rightarrow> view_loop m e v' (Suc n) cs
      | VEnded v' \<Rightarrow> view_loop m e v' (Suc n) cs
      | VThrew er out \<Rightarrow> Some \<lparr>emitted = out, ending = Errored er, reads = Suc n\<rparr>
      | VUnknown \<Rightarrow> None)"
    by (simp add: w_def appendRest_def)
  show ?case
  proof (cases "view_drain m e w")
    case (VNeed v')
    then have a: "view_drain m e (appendRest v' (concat cs)) = VEnded vE"
      using x all by simp
    have b: "view_drain m e v' = VNeed v'" using x0 VNeed by simp
    show ?thesis unfolding vl VNeed using Cons(1) [OF a b Cons(4), of "Suc n"] by simp
  next
    case (VEnded v')
    then have eq: "vE = appendRest v' (concat cs)" using x all by simp
    have st: "v_state v' = STATE_BOUNDARY" using VEnded by (rule view_drain_ended_state)
    have "crlf_pad (v_rest v' @ concat cs)" using Cons(4) by (simp add: eq)
    from view_loop_padding [OF m(1) st this, of e "Suc n"]
    show ?thesis unfolding vl VEnded by (simp add: eq)
  next
    case (VThrew er out)
    then show ?thesis using x all by simp
  next
    case VUnknown
    then show ?thesis using x all by simp
  qed
qed

subsection \<open>Encoding and decoding\<close>

lemma encode_Cons:
  "\<not> (0xD800 \<le> c \<and> c \<le> 0xDFFF) \<Longrightarrow> encode (c # s) = encode_code_point c @ encode s"
  by (cases s) auto

lemma encode_latin1:
  "list_all (\<lambda>c. c \<le> 0xFF) s \<Longrightarrow> encode s = concat (map encode_code_point s)"
  by (induction s) (simp_all add: encode_Cons)

lemma encode_code_point_CR:
  "c \<le> 0xFF \<Longrightarrow> 0x0D \<in> set (encode_code_point c) \<longleftrightarrow> c = 0x0D"
  by (auto simp: encode_code_point_def)

lemma encode_no_CR:
  "list_all (\<lambda>c. c \<le> 0xFF) s \<Longrightarrow> 0x0D \<notin> set s \<Longrightarrow> 0x0D \<notin> set (encode s)"
  by (induction s) (auto simp: encode_Cons encode_code_point_CR)

lemma utf8_decode_code_point:
  assumes "c \<le> 0xFF"
  shows "utf8_decode 0 0 0x80 0xBF (encode_code_point c @ bs) = c # utf8_decode 0 0 0x80 0xBF bs"
proof (cases "c < 0x80")
  case True
  then have e: "encode_code_point c @ bs = c # bs" by (simp add: encode_code_point_def)
  show ?thesis unfolding e using True
    by (subst utf8_decode.simps) (simp del: utf8_decode.simps)
next
  case False
  define x where "x = c div 64"
  define y where "y = c mod 64"
  have c: "x * 64 + y = c" by (simp add: x_def y_def)
  have y: "y < 64" by (simp add: y_def)
  have x: "2 \<le> x" "x < 4" using False assms c y by linarith+
  have enc: "encode_code_point c @ bs = (0xC0 + x) # (0x80 + y) # bs"
    using False assms by (simp add: encode_code_point_def x_def y_def)
  have "utf8_decode 0 0 0x80 0xBF ((0xC0 + x) # (0x80 + y) # bs) =
      utf8_decode x 1 0x80 0xBF ((0x80 + y) # bs)"
    using x by (subst utf8_decode.simps) (simp del: utf8_decode.simps)
  also have "\<dots> = (x * 64 + y) # utf8_decode 0 0 0x80 0xBF bs"
    using y by (subst utf8_decode.simps) (simp del: utf8_decode.simps)
  finally show ?thesis unfolding enc c .
qed

lemma utf8_decode_encode:
  "list_all (\<lambda>c. c \<le> 0xFF) s \<Longrightarrow> utf8_decode 0 0 0x80 0xBF (encode s) = s"
  by (induction s) (simp_all add: encode_Cons utf8_decode_code_point del: utf8_decode.simps(2))

lemma decode_encode:
  assumes "list_all (\<lambda>c. c \<le> 0xFF) s"
  shows "decode (encode s) = s"
proof -
  have c: "concat (map code_units s) = s"
    using assms by (induction s) (simp_all add: code_units_def)
  have u: "utf8_decode 0 0 0x80 0xBF (encode s) = s"
    using assms by (rule utf8_decode_encode)
  show ?thesis
  proof (cases s)
    case Nil
    then show ?thesis by (simp add: decode_def)
  next
    case (Cons a r)
    then have "a \<noteq> 0xFEFF" using assms by auto
    then show ?thesis unfolding decode_def u Let_def using c Cons by simp
  qed
qed

lemma encode_boundary:
  "a < 0x80 \<Longrightarrow> b < 0x80 \<Longrightarrow> c < 0x80 \<Longrightarrow> d < 0x80 \<Longrightarrow>
   \<exists>p. encode (s @ [a, b]) = p @ [a, b] \<and> encode (s @ [c, d]) = p @ [c, d]"
proof (induction s rule: encode.induct)
  case 1
  then show ?case by (simp add: encode_code_point_def)
next
  case (2 u)
  have "\<And>x y. x < 0x80 \<Longrightarrow> y < 0x80 \<Longrightarrow> encode [u, x, y] =
      (if 0xD800 \<le> u \<and> u \<le> 0xDFFF then encode_code_point 0xFFFD else encode_code_point u) @ [x, y]"
    by (simp add: encode_code_point_def)
  then show ?case using 2 by simp
next
  case (3 u v us)
  show ?case
  proof (cases "(0xD800 \<le> u \<and> u \<le> 0xDBFF) \<and> (0xDC00 \<le> v \<and> v \<le> 0xDFFF)")
    case True
    then obtain p where p: "encode (us @ [a, b]) = p @ [a, b]" "encode (us @ [c, d]) = p @ [c, d]"
      using 3(1) 3(5-8) by blast
    define q where "q = encode_code_point (0x10000 + (u - 0xD800) * 0x400 + (v - 0xDC00))"
    have "encode ((u # v # us) @ [a, b]) = (q @ p) @ [a, b]"
      "encode ((u # v # us) @ [c, d]) = (q @ p) @ [c, d]"
      using True p by (simp_all add: q_def)
    then show ?thesis by blast
  next
    case False
    then obtain p where p: "encode ((v # us) @ [a, b]) = p @ [a, b]"
        "encode ((v # us) @ [c, d]) = p @ [c, d]"
      using 3(2) [OF _ _ 3(5-8)] 3(3) [OF _ _ 3(5-8)] 3(4) [OF _ _ 3(5-8)] by blast
    define q where "q = (if 0xD800 \<le> u \<and> u \<le> 0xDFFF then encode_code_point 0xFFFD
        else encode_code_point u)"
    have "encode ((u # v # us) @ [a, b]) = (q @ p) @ [a, b]"
      "encode ((u # v # us) @ [c, d]) = (q @ p) @ [c, d]"
      using False p [symmetric] by (auto simp: q_def)
    then show ?thesis by blast
  qed
qed

lemma boundaries:
  obtains p where "encode (ascii ''--'' @ token @ [0x0D, 0x0A]) = 0x2D # 0x2D # p @ [0x0D, 0x0A]"
    and "encode (ascii ''--'' @ token @ ascii ''--'') = 0x2D # 0x2D # p @ [0x2D, 0x2D]"
proof -
  obtain p where p: "encode (token @ [0x0D, 0x0A]) = p @ [0x0D, 0x0A]"
      "encode (token @ [0x2D, 0x2D]) = p @ [0x2D, 0x2D]"
    using encode_boundary [of "0x0D" "0x0A" "0x2D" "0x2D" token] by auto
  have "encode (ascii ''--'' @ token @ [0x0D, 0x0A]) = 0x2D # 0x2D # p @ [0x0D, 0x0A]"
    using p(1) by (simp add: ascii_def encode_Cons encode_code_point_def)
  moreover have "encode (ascii ''--'' @ token @ ascii ''--'') = 0x2D # 0x2D # p @ [0x2D, 0x2D]"
    using p(2) by (simp add: ascii_def encode_Cons encode_code_point_def)
  ultimately show thesis using that by blast
qed

subsection \<open>A stream in the wire format, drained in one piece\<close>

lemma tchar_props: "tchar c \<Longrightarrow> c \<le> 0xFF \<and> c \<noteq> 0x3A \<and> c \<noteq> 0x0D"
  by (auto simp: tchar_def ascii_def)

lemma dropWhile_self: "xs = [] \<or> \<not> P (hd xs) \<Longrightarrow> dropWhile P xs = xs"
  by (cases xs) auto

lemma normalize_header_value:
  assumes "header_value v"
  shows "normalize v = v"
proof (cases v)
  case Nil
  then show ?thesis by (simp add: normalize_def)
next
  case (Cons a r)
  then have ne: "v \<noteq> []" by simp
  have all: "\<forall>c \<in> set v. c \<noteq> 0x0A \<and> c \<noteq> 0x0D"
    using assms by (auto simp: header_value_def list_all_iff)
  have "hd v \<in> set v" "last v \<in> set v" using ne by simp_all
  then have h: "\<not> http_whitespace (hd v)" "\<not> http_whitespace (last v)"
    using assms all ne by (auto simp: header_value_def http_whitespace_def)
  have 1: "dropWhile http_whitespace v = v" using h(1) by (intro dropWhile_self) simp
  have "hd (rev v) = last v" using ne by (simp add: hd_rev)
  then have 2: "dropWhile http_whitespace (rev v) = rev v"
    using h(2) by (intro dropWhile_self) simp
  show ?thesis by (simp add: normalize_def 1 2)
qed

lemma header_line_parse:
  assumes n: "header_name n" and v: "header_value v"
  defines "line \<equiv> n @ ascii '': '' @ v"
  shows "line \<noteq> []" and "first_index line 0x3A 0 = int (length n)"
    and "at line (int (length n) + 1) = Some 0x20"
    and "substring line 0 (int (length n)) = n"
    and "substring_from line (int (length n) + 2) = v"
    and "list_all (\<lambda>c. c \<le> 0xFF) line" and "0x0D \<notin> set line"
    and "Headers_append acc n v =
          Some (acc @ [(case find (\<lambda>g. same_name (fst g) n) acc of Some g \<Rightarrow> fst g | None \<Rightarrow> n, v)])"
    and "length n \<noteq> length line"
proof -
  show "length n \<noteq> length line" by (simp add: line_def ascii_def)
  have tn: "\<forall>c \<in> set n. c \<le> 0xFF \<and> c \<noteq> 0x3A \<and> c \<noteq> 0x0D"
    using n tchar_props by (auto simp: header_name_def list_all_iff)
  have tv: "\<forall>c \<in> set v. c \<le> 0xFF \<and> c \<noteq> 0x0D"
    using v by (auto simp: header_value_def list_all_iff)
  have l: "line = n @ 0x3A # 0x20 # v" by (simp add: line_def ascii_def)
  show "line \<noteq> []" using n by (simp add: l header_name_def)
  have tw: "takeWhile (\<lambda>y. y \<noteq> 0x3A) line = n"
    unfolding l using tn by (simp add: takeWhile_append2)
  show "first_index line 0x3A 0 = int (length n)"
    by (simp add: first_index_takeWhile tw) (simp add: l)
  have "at line (int (Suc (length n))) = Some 0x20"
    unfolding at_nat by (simp add: l nth_append)
  then show "at line (int (length n) + 1) = Some 0x20" by (simp add: add.commute)
  show "substring line 0 (int (length n)) = n"
    by (simp add: substring_def Let_def l)
  have "nat (int (length n) + 2) = length n + 2" by simp
  then show "substring_from line (int (length n) + 2) = v"
    by (simp add: substring_from_def l)
  show "list_all (\<lambda>c. c \<le> 0xFF) line" using tn tv by (auto simp: l list_all_iff)
  show "0x0D \<notin> set line" using tn tv by (auto simp: l)
  have "list_all (\<lambda>c. c \<le> 0xFF) (n @ v)" using tn tv by (auto simp: list_all_iff)
  then show "Headers_append acc n v =
          Some (acc @ [(case find (\<lambda>g. same_name (fst g) n) acc of Some g \<Rightarrow> fst g | None \<Rightarrow> n, v)])"
    using n v by (simp add: Headers_append_def Let_def normalize_header_value)
qed

lemma view_drain_Break: "view_turn m e v = VBreak v' \<Longrightarrow> view_drain m e v = view_drain m e v'"
  by (subst view_drain.simps) simp

lemma view_drain_End: "view_turn m e v = VEnd v' \<Longrightarrow> view_drain m e v = VEnded v'"
  by (subst view_drain.simps) simp

lemma view_drain_Suspend: "view_turn m e v = VSuspend v' \<Longrightarrow> view_drain m e v = VNeed v'"
  by (subst view_drain.simps) simp

lemma takeWhile_stop: "x \<notin> set a \<Longrightarrow> takeWhile (\<lambda>b. b \<noteq> x) (a @ x # r) = a"
  by (induction a) auto

lemma turn_header_line:
  assumes n: "header_name (fst h)" and v: "header_value (snd h)"
    and st: "v_state w = STATE_HEADERS" and hs: "v_headers w = Some acc"
    and r: "v_rest w = header_line h @ r"
  shows "view_turn m e w = VBreak (w\<lparr>v_rest := r, v_headers := Some (appended acc [h])\<rparr>)"
proof -
  define line where "line = fst h @ ascii '': '' @ snd h"
  note p = header_line_parse [OF n v, folded line_def]
  have rest: "v_rest w = encode line @ 0x0D # 0x0A # r"
    by (simp add: r header_line_def line_def blankLine_def)
  have nocr: "0x0D \<notin> set (encode line)" using p(6,7) by (rule encode_no_CR)
  have tw: "takeWhile (\<lambda>b. b \<noteq> 0x0D) (v_rest w) = encode line"
    unfolding rest using nocr by (rule takeWhile_stop)
  have dec: "decode (encode line) = line" using p(6) by (rule decode_encode)
  have after: "drop (length (encode line)) (v_rest w) = 0x0D # 0x0A # r"
    by (simp add: rest)
  have "view_HEADERS w = VBreak (w\<lparr>v_rest := r, v_headers := Some (appended acc [h])\<rparr>)"
    unfolding view_HEADERS_def Let_def tw after dec hs
    using p(1-5) p(9) by (simp add: p(8))
  then show ?thesis using st by (simp add: view_turn_def)
qed

lemma drain_header_lines:
  assumes "list_all (\<lambda>h. header_name (fst h) \<and> header_value (snd h)) hs"
    and "v_state w = STATE_HEADERS" and "v_headers w = Some acc"
    and "v_rest w = concat (map header_line hs) @ r"
  shows "view_drain m e w =
    view_drain m e (w\<lparr>v_rest := r, v_headers := Some (appended acc hs)\<rparr>)"
  using assms
proof (induction hs arbitrary: w acc)
  case Nil
  then have "w\<lparr>v_rest := r, v_headers := Some (appended acc [])\<rparr> = w" by simp
  then show ?case by simp
next
  case (Cons h hs)
  define w' where "w' = w\<lparr>v_rest := concat (map header_line hs) @ r, v_headers := Some (appended acc [h])\<rparr>"
  have "view_turn m e w = VBreak w'"
    unfolding w'_def using Cons(2-5) by (intro turn_header_line) simp_all
  then have "view_drain m e w = view_drain m e w'" by (rule view_drain_Break)
  also have "\<dots> = view_drain m e (w'\<lparr>v_rest := r, v_headers := Some (appended (appended acc [h]) hs)\<rparr>)"
    using Cons(2,3) by (intro Cons(1)) (simp_all add: w'_def)
  finally show ?case by (simp add: w'_def)
qed

lemma blanks_blank_lines: "blanks (blank_lines j @ z) = 2 * j + blanks z"
  by (induction j) (simp_all add: blank_lines_def blankLine_def)

lemma length_blank_lines [simp]: "length (blank_lines j) = 2 * j"
  by (induction j) (simp_all add: blank_lines_def blankLine_def)

lemma same_key_appended:
  "map (\<lambda>h. (lowercase (fst h), snd h)) (appended acc hs) =
   map (\<lambda>h. (lowercase (fst h), snd h)) (acc @ hs)"
proof (induction hs arbitrary: acc)
  case Nil
  then show ?case by simp
next
  case (Cons h hs)
  have "lowercase (case find (\<lambda>g. same_name (fst g) (fst h)) acc of
                      Some g \<Rightarrow> fst g | None \<Rightarrow> fst h) = lowercase (fst h)"
  proof (cases "find (\<lambda>g. same_name (fst g) (fst h)) acc")
    case None
    then show ?thesis by simp
  next
    case (Some g)
    then have "same_name (fst g) (fst h)" by (auto simp: find_Some_iff)
    then show ?thesis unfolding Some by (simp add: same_name_def)
  qed
  then show ?case using Cons [of "acc @ [(case find (\<lambda>g. same_name (fst g) (fst h)) acc of
                      Some g \<Rightarrow> fst g | None \<Rightarrow> fst h, snd h)]"] by simp
qed

lemma Headers_get_key:
  "Headers_get hs name =
    (let vs = map snd (filter (\<lambda>k. fst k = lowercase name) (map (\<lambda>h. (lowercase (fst h), snd h)) hs))
     in if vs = [] then None else Some (join_values vs))"
proof -
  have "map snd (filter (\<lambda>h. same_name (fst h) name) hs) =
    map snd (filter (\<lambda>k. fst k = lowercase name) (map (\<lambda>h. (lowercase (fst h), snd h)) hs))"
    by (induction hs) (simp_all add: same_name_def)
  then show ?thesis by (simp add: Headers_get_def)
qed

lemma Headers_get_appended: "Headers_get (appended [] hs) name = Headers_get hs name"
  unfolding Headers_get_key same_key_appended by simp

lemma boundary_pair_props:
  assumes "boundary_pair m e"
  shows "2 \<le> length m" and "length e = length m" and "blanks (m @ z) = 0" and "blanks (e @ z) = 0"
    and "take (length m) (e @ z) \<noteq> m"
proof -
  from assms obtain p where p: "m = 0x2D # 0x2D # p @ [0x0D, 0x0A]" "e = 0x2D # 0x2D # p @ [0x2D, 0x2D]"
    by (auto simp: boundary_pair_def)
  show "2 \<le> length m" "length e = length m" "blanks (m @ z) = 0" "blanks (e @ z) = 0"
    by (simp_all add: p)
  show "take (length m) (e @ z) \<noteq> m" by (simp add: p)
qed

lemma boundary_pair_encode:
  "boundary_pair (encode (ascii ''--'' @ token @ [0x0D, 0x0A])) (encode (ascii ''--'' @ token @ ascii ''--''))"
  using boundaries [of token] unfolding boundary_pair_def by metis

lemma turn_mid_boundary:
  assumes bp: "boundary_pair m e" and st: "v_state w = STATE_BOUNDARY"
    and r: "v_rest w = blank_lines j @ m @ r"
  shows "view_turn m e w = VBreak (w\<lparr>v_rest := r, v_state := STATE_HEADERS, v_headers := Some []\<rparr>)"
proof -
  note b = boundary_pair_props [OF bp]
  have bl: "blanks (v_rest w) = 2 * j" by (simp add: r blanks_blank_lines b(3))
  have d: "drop (2 * j) (v_rest w) = m @ r" by (simp add: r)
  show ?thesis using st
    by (simp add: view_turn_def view_BOUNDARY_def Let_def bl d)
qed

lemma turn_end_boundary:
  assumes bp: "boundary_pair m e" and st: "v_state w = STATE_BOUNDARY"
    and r: "v_rest w = blank_lines j @ e @ r"
  shows "view_turn m e w = VEnd (w\<lparr>v_rest := r\<rparr>)"
proof -
  note b = boundary_pair_props [OF bp]
  have bl: "blanks (v_rest w) = 2 * j" by (simp add: r blanks_blank_lines b(4))
  have d: "drop (2 * j) (v_rest w) = e @ r" by (simp add: r)
  have l: "\<not> length (e @ r) < length m" using b(2) by simp
  show ?thesis using st l b(5) [of r]
    unfolding view_turn_def view_BOUNDARY_def Let_def bl d by simp
qed

lemma turn_empty_line:
  assumes st: "v_state w = STATE_HEADERS" and hs: "v_headers w = Some hs"
    and n: "parseInt (Headers_get hs (ascii ''Content-Length'')) = Some n"
    and r: "v_rest w = blankLine @ r"
  shows "view_turn m e w = VBreak (w\<lparr>v_rest := r, v_contentLength := Some n, v_state := STATE_BODY\<rparr>)"
proof -
  have "view_HEADERS w = VBreak (w\<lparr>v_rest := r, v_contentLength := Some n, v_state := STATE_BODY\<rparr>)"
    unfolding view_HEADERS_def Let_def r hs
    by (simp add: blankLine_def decode_def n)
  then show ?thesis using st by (simp add: view_turn_def)
qed

lemma turn_body:
  assumes st: "v_state w = STATE_BODY" and n: "v_contentLength w = Some (int (length body))"
    and r: "v_rest w = body @ r"
  shows "view_turn m e w = VBreak (w\<lparr>v_rest := r,
           v_enqueued := v_enqueued w @ [\<lparr>p_headers = v_headers w, p_body = body\<rparr>],
           v_headers := None, v_contentLength := None, v_state := STATE_BOUNDARY\<rparr>)"
  using st by (simp add: view_turn_def view_BODY_def Let_def n r)

lemma drain_part:
  assumes bp: "boundary_pair m e" and wf: "well_formed p"
    and st: "v_state w = STATE_BOUNDARY" and r: "v_rest w = wire_part m p @ r"
  shows "view_drain m e w =
    view_drain m e (w\<lparr>v_rest := r, v_enqueued := v_enqueued w @ [parsed p],
           v_headers := None, v_contentLength := None, v_state := STATE_BOUNDARY\<rparr>)"
proof -
  obtain j hs body where p: "p = (j, hs, body)" by (cases p)
  have wf1: "list_all (\<lambda>h. header_name (fst h) \<and> header_value (snd h)) hs"
    and wf2: "parseInt (Headers_get (appended [] hs) (ascii ''Content-Length'')) = Some (int (length body))"
    using wf by (simp_all add: well_formed_def p Headers_get_appended)
  define w1 where "w1 = w\<lparr>v_rest := concat (map header_line hs) @ blankLine @ body @ r,
      v_state := STATE_HEADERS, v_headers := Some []\<rparr>"
  define w2 where "w2 = w1\<lparr>v_rest := blankLine @ body @ r, v_headers := Some (appended [] hs)\<rparr>"
  define w3 where "w3 = w2\<lparr>v_rest := body @ r, v_contentLength := Some (int (length body)),
      v_state := STATE_BODY\<rparr>"
  have "view_turn m e w = VBreak w1"
    unfolding w1_def using bp st by (rule turn_mid_boundary) (simp add: r p wire_part_def)
  then have "view_drain m e w = view_drain m e w1" by (rule view_drain_Break)
  also have "\<dots> = view_drain m e w2"
    unfolding w2_def using wf1 by (rule drain_header_lines) (simp_all add: w1_def)
  also have "view_turn m e w2 = VBreak w3"
    unfolding w3_def using wf2 by (intro turn_empty_line) (simp_all add: w2_def w1_def)
  then have "view_drain m e w2 = view_drain m e w3" by (rule view_drain_Break)
  also have "view_turn m e w3 = VBreak (w3\<lparr>v_rest := r,
           v_enqueued := v_enqueued w3 @ [\<lparr>p_headers = v_headers w3, p_body = body\<rparr>],
           v_headers := None, v_contentLength := None, v_state := STATE_BOUNDARY\<rparr>)"
    by (rule turn_body) (simp_all add: w3_def)
  then have "view_drain m e w3 = view_drain m e (w3\<lparr>v_rest := r,
           v_enqueued := v_enqueued w3 @ [\<lparr>p_headers = v_headers w3, p_body = body\<rparr>],
           v_headers := None, v_contentLength := None, v_state := STATE_BOUNDARY\<rparr>)"
    by (rule view_drain_Break)
  finally show ?thesis by (simp add: w3_def w2_def w1_def parsed_def p)
qed

lemma drain_parts:
  assumes bp: "boundary_pair m e"
  shows "list_all well_formed ps \<Longrightarrow> v_state w = STATE_BOUNDARY \<Longrightarrow>
    v_headers w = None \<Longrightarrow> v_contentLength w = None \<Longrightarrow>
    v_rest w = concat (map (wire_part m) ps) @ r \<Longrightarrow>
    view_drain m e w = view_drain m e (w\<lparr>v_rest := r, v_enqueued := v_enqueued w @ map parsed ps\<rparr>)"
proof (induction ps arbitrary: w)
  case Nil
  then have "w\<lparr>v_rest := r, v_enqueued := v_enqueued w @ map parsed []\<rparr> = w" by simp
  then show ?case by simp
next
  case (Cons p ps)
  define w' where "w' = w\<lparr>v_rest := concat (map (wire_part m) ps) @ r,
           v_enqueued := v_enqueued w @ [parsed p],
           v_headers := None, v_contentLength := None, v_state := STATE_BOUNDARY\<rparr>"
  have "view_drain m e w = view_drain m e w'"
    unfolding w'_def using bp Cons(2,3,6) by (intro drain_part) simp_all
  also have "\<dots> = view_drain m e (w'\<lparr>v_rest := r, v_enqueued := v_enqueued w' @ map parsed ps\<rparr>)"
    using Cons(2) by (intro Cons(1)) (simp_all add: w'_def)
  finally show ?case using Cons(3-5) by (cases w) (simp add: w'_def)
qed

lemma drain_wire:
  assumes "list_all well_formed ps"
  shows "view_drain (encode (ascii ''--'' @ token @ [0x0D, 0x0A])) (encode (ascii ''--'' @ token @ ascii ''--''))
      (appendRest start (wire token ps j k)) =
    VEnded (start\<lparr>v_rest := blank_lines k, v_enqueued := map parsed ps\<rparr>)"
proof -
  define m where "m = encode (ascii ''--'' @ token @ [0x0D, 0x0A])"
  define e where "e = encode (ascii ''--'' @ token @ ascii ''--'')"
  have bp: "boundary_pair m e" unfolding m_def e_def by (rule boundary_pair_encode)
  define w where "w = appendRest start (wire token ps j k)"
  define w' where "w' = w\<lparr>v_rest := blank_lines j @ e @ blank_lines k, v_enqueued := v_enqueued w @ map parsed ps\<rparr>"
  have "view_drain m e w = view_drain m e w'"
    unfolding w'_def using bp assms
    by (rule drain_parts) (simp_all add: w_def start_def wire_def m_def e_def)
  also have "view_turn m e w' = VEnd (w'\<lparr>v_rest := blank_lines k\<rparr>)"
    using bp by (rule turn_end_boundary) (simp_all add: w'_def w_def start_def)
  then have "view_drain m e w' = VEnded (w'\<lparr>v_rest := blank_lines k\<rparr>)" by (rule view_drain_End)
  finally show ?thesis
    by (simp add: m_def e_def w_def w'_def start_def appendRest_def)
qed

lemma mainLoop_wire:
  assumes "list_all well_formed ps" and "concat cs = wire token ps j k"
  shows "mainLoop (encode (ascii ''--'' @ token @ [0x0D, 0x0A])) (encode (ascii ''--'' @ token @ ascii ''--''))
      \<lparr>pos = 0, buf = [], state = STATE_BOUNDARY, headers = None, contentLength = None, enqueued = []\<rparr>
      0 cs =
    Some \<lparr>emitted = map parsed ps, ending = Closed, reads = Suc (length cs)\<rparr>"
proof -
  define m where "m = encode (ascii ''--'' @ token @ [0x0D, 0x0A])"
  define e where "e = encode (ascii ''--'' @ token @ ascii ''--'')"
  define s where "s = \<lparr>pos = 0, buf = [], state = STATE_BOUNDARY, headers = None,
      contentLength = None, enqueued = []\<rparr>"
  have bp: "boundary_pair m e" unfolding m_def e_def by (rule boundary_pair_encode)
  note b = boundary_pair_props [OF bp]
  have vs: "view s = start" "in_range s" by (simp_all add: s_def view_def start_def in_range_def)
  have d: "view_drain m e (appendRest start (concat cs)) =
      VEnded (start\<lparr>v_rest := blank_lines k, v_enqueued := map parsed ps\<rparr>)"
    unfolding m_def e_def assms(2) using assms(1) by (rule drain_wire)
  have "view_turn m e start = VSuspend start"
    using b(1) by (auto simp: view_turn_def view_BOUNDARY_def start_def)
  then have n: "view_drain m e start = VNeed start" by (rule view_drain_Suspend)
  have "view_loop m e start 0 cs =
      Some \<lparr>emitted = v_enqueued (start\<lparr>v_rest := blank_lines k, v_enqueued := map parsed ps\<rparr>),
            ending = Closed, reads = Suc (0 + length cs)\<rparr>"
    using b(1) _ d n
    by (rule view_loop_chunks) (simp_all add: b(2) blank_lines_def crlf_pad_replicate)
  then have "view_loop m e (view s) 0 cs = Some \<lparr>emitted = map parsed ps, ending = Closed, reads = Suc (length cs)\<rparr>"
    by (simp add: vs)
  then show ?thesis unfolding m_def [symmetric] e_def [symmetric] s_def [symmetric]
    using vs(2) by (intro view_loop_mainLoop)
qed

subsection \<open>The search of \<^verbatim>\<open>getBoundary\<close>\<close>

lemma search_none: "search t xs k = - 1 \<longleftrightarrow> \<not> (\<exists>a b. xs = a @ t @ b)"
proof (induction xs arbitrary: k)
  case Nil
  then show ?case by auto
next
  case (Cons x xs)
  show ?case
  proof (cases "take (length t) (x # xs) = t")
    case True
    then have "x # xs = [] @ t @ drop (length t) (x # xs)"
      by (metis append_Nil append_take_drop_id)
    then have "\<exists>a b. x # xs = a @ t @ b" by blast
    then show ?thesis using True by simp
  next
    case False
    have "(\<exists>a b. x # xs = a @ t @ b) \<longleftrightarrow> (\<exists>a b. xs = a @ t @ b)"
    proof
      assume "\<exists>a b. x # xs = a @ t @ b"
      then obtain a b where ab: "x # xs = a @ t @ b" by blast
      have "a \<noteq> []"
      proof
        assume "a = []"
        then have "take (length t) (x # xs) = t" using ab by simp
        then show False using False by simp
      qed
      then obtain a' where "a = x # a'" using ab by (cases a) auto
      then have "xs = a' @ t @ b" using ab by simp
      then show "\<exists>a b. xs = a @ t @ b" by blast
    next
      assume "\<exists>a b. xs = a @ t @ b"
      then obtain a b where "xs = a @ t @ b" by blast
      then have "x # xs = (x # a) @ t @ b" by simp
      then show "\<exists>a b. x # xs = a @ t @ b" by blast
    qed
    then show ?thesis using False Cons [of "Suc k"] by simp
  qed
qed

lemma search_first:
  "search t xs k \<noteq> - 1 \<Longrightarrow>
   \<exists>a b. xs = a @ t @ b \<and> search t xs k = int (k + length a) \<and>
     (\<forall>a' b'. xs = a' @ t @ b' \<longrightarrow> length a \<le> length a')"
proof (induction xs arbitrary: k)
  case Nil
  then have "t = []" by (simp split: if_splits)
  then show ?case by simp
next
  case (Cons x xs)
  show ?case
  proof (cases "take (length t) (x # xs) = t")
    case True
    then have "x # xs = [] @ t @ drop (length t) (x # xs)"
      by (metis append_Nil append_take_drop_id)
    moreover have "search t (x # xs) k = int (k + length ([] :: 'a list))" using True by simp
    ultimately show ?thesis by (metis le0 list.size(3))
  next
    case False
    then have s: "search t (x # xs) k = search t xs (Suc k)" by simp
    then obtain a b where ab: "xs = a @ t @ b" "search t xs (Suc k) = int (Suc k + length a)"
        "\<forall>a' b'. xs = a' @ t @ b' \<longrightarrow> length a \<le> length a'"
      using Cons(1) [of "Suc k"] Cons(2) by auto
    have "\<forall>a' b'. x # xs = a' @ t @ b' \<longrightarrow> length (x # a) \<le> length a'"
    proof (intro allI impI)
      fix a' b' assume h: "x # xs = a' @ t @ b'"
      have "a' \<noteq> []"
      proof
        assume "a' = []"
        then have "take (length t) (x # xs) = t" using h by simp
        then show False using False by simp
      qed
      then obtain a'' where a'': "a' = x # a''" using h by (cases a') auto
      then have "xs = a'' @ t @ b'" using h by simp
      then have "length a \<le> length a''" using ab(3) by blast
      then show "length (x # a) \<le> length a'" by (simp add: a'')
    qed
    moreover have "x # xs = (x # a) @ t @ b" using ab(1) by simp
    moreover have "search t (x # xs) k = int (k + length (x # a))" using s ab(2) by simp
    ultimately show ?thesis by blast
  qed
qed

lemma getBoundary_None:
  "getBoundary ct = None \<longleftrightarrow>
   \<not> (\<exists>pre post. ct = ascii ''multipart/'' @ pre @ ascii ''; boundary='' @ post)"
proof (cases "startsWith ct (ascii ''multipart/'')")
  case False
  then have "getBoundary ct = None" by (simp add: getBoundary_def)
  moreover have "\<not> (\<exists>pre post. ct = ascii ''multipart/'' @ pre @ ascii ''; boundary='' @ post)"
    using False by (auto simp: startsWith_def)
  ultimately show ?thesis by simp
next
  case True
  define r where "r = drop (length (ascii ''multipart/'')) ct"
  have ct: "ct = ascii ''multipart/'' @ r"
    using True by (metis append_take_drop_id r_def startsWith_def)
  have l: "length (ascii ''multipart/'') = 10" by (simp add: ascii_def)
  have i: "str_indexOf ct (ascii ''; boundary='') (int (length (ascii ''multipart/'')))
      = search (ascii ''; boundary='') r 10"
  proof -
    have "10 \<le> length ct" by (subst ct) (simp add: l)
    then show ?thesis by (simp add: str_indexOf_def Let_def l r_def)
  qed
  have "getBoundary ct = None \<longleftrightarrow> search (ascii ''; boundary='') r 10 = - 1"
    using True by (simp add: getBoundary_def Let_def i)
  also have "\<dots> \<longleftrightarrow> \<not> (\<exists>a b. r = a @ ascii ''; boundary='' @ b)" by (rule search_none)
  also have "\<dots> \<longleftrightarrow> \<not> (\<exists>pre post. ct = ascii ''multipart/'' @ pre @ ascii ''; boundary='' @ post)"
    by (subst ct) simp
  finally show ?thesis .
qed

lemma getBoundary_Some:
  assumes "getBoundary ct = Some token"
  shows "\<exists>pre. ct = ascii ''multipart/'' @ pre @ ascii ''; boundary='' @ token \<and>
    (\<forall>pre' post'. ct = ascii ''multipart/'' @ pre' @ ascii ''; boundary='' @ post' \<longrightarrow>
       length pre \<le> length pre')"
proof -
  have sw: "startsWith ct (ascii ''multipart/'')"
    using assms by (auto simp: getBoundary_def Let_def split: if_splits)
  define r where "r = drop (length (ascii ''multipart/'')) ct"
  have ct: "ct = ascii ''multipart/'' @ r"
    using sw by (metis append_take_drop_id r_def startsWith_def)
  have l: "length (ascii ''multipart/'') = 10" "length (ascii ''; boundary='') = 11"
    by (simp_all add: ascii_def)
  have i: "str_indexOf ct (ascii ''; boundary='') (int (length (ascii ''multipart/'')))
      = search (ascii ''; boundary='') r 10"
  proof -
    have "10 \<le> length ct" by (subst ct) (simp add: l)
    then show ?thesis by (simp add: str_indexOf_def Let_def l r_def)
  qed
  have i': "str_indexOf ct (ascii ''; boundary='') 10 = search (ascii ''; boundary='') r 10"
    using i by (simp add: l)
  have g: "search (ascii ''; boundary='') r 10 \<noteq> - 1"
       "token = substring_from ct (search (ascii ''; boundary='') r 10 + 11)"
    using assms sw by (auto simp: getBoundary_def Let_def i' l split: if_splits)
  from search_first [OF g(1)] obtain a b where ab: "r = a @ ascii ''; boundary='' @ b"
      "search (ascii ''; boundary='') r 10 = int (10 + length a)"
      "\<forall>a' b'. r = a' @ ascii ''; boundary='' @ b' \<longrightarrow> length a \<le> length a'"
    by blast
  have "nat (int (10 + length a) + 11) = 10 + length a + 11" by simp
  then have "token = b"
    unfolding g(2) ab(2) substring_from_def by (subst (1 2) ct) (simp add: ab(1) l)
  then have "ct = ascii ''multipart/'' @ a @ ascii ''; boundary='' @ token"
    using ct ab(1) by simp
  moreover have "\<forall>pre' post'. ct = ascii ''multipart/'' @ pre' @ ascii ''; boundary='' @ post' \<longrightarrow>
       length a \<le> length pre'"
    using ab(3) by (subst ct) simp
  ultimately show ?thesis by blast
qed

subsection \<open>The stream function on the wire format\<close>

lemma concat_singletons: "concat (map (\<lambda>b. [b]) xs) = xs"
  by (induction xs) simp_all

lemma multipartStream_wire:
  assumes "getBoundary ct = Some token" and "list_all well_formed ps"
    and "concat cs = wire token ps j k"
  shows "multipartStream ct cs =
    Some \<lparr>emitted = map parsed ps, ending = Closed, reads = Suc (length cs)\<rparr>"
  using mainLoop_wire [OF assms(2,3)] assms(1) by (simp add: multipartStream_def)

lemma appended_values:
  "map snd (appended acc hs) = map snd (acc @ hs) \<and>
   map (\<lambda>h. lowercase (fst h)) (appended acc hs) = map (\<lambda>h. lowercase (fst h)) (acc @ hs)"
proof -
  have "map snd (map (\<lambda>h. (lowercase (fst h), snd h)) (appended acc hs)) =
        map snd (map (\<lambda>h. (lowercase (fst h), snd h)) (acc @ hs))"
       "map fst (map (\<lambda>h. (lowercase (fst h), snd h)) (appended acc hs)) =
        map fst (map (\<lambda>h. (lowercase (fst h), snd h)) (acc @ hs))"
    by (simp_all only: same_key_appended)
  then show ?thesis by (simp add: comp_def)
qed

lemma end_of_source:
  assumes "in_range s"
  shows "mainLoop m e s n [] =
    Some \<lparr>emitted = enqueued s,
          ending = (if state s \<noteq> STATE_BOUNDARY \<or>
                       (\<exists>b \<in> set (drop (nat (pos s)) (buf s)). b \<noteq> 10 \<and> b \<noteq> 13)
                    then Errored Ended_mid_part else Closed),
          reads = Suc n\<rparr>"
proof -
  have "dropWhile newline (drop (nat (pos s)) (buf s)) \<noteq> [] \<longleftrightarrow>
      (\<exists>b \<in> set (drop (nat (pos s)) (buf s)). b \<noteq> 10 \<and> b \<noteq> 13)"
    by (auto simp: dropWhile_eq_Nil_conv newline_def)
  then have "view_loop m e (view s) n [] =
    Some \<lparr>emitted = enqueued s,
          ending = (if state s \<noteq> STATE_BOUNDARY \<or>
                       (\<exists>b \<in> set (drop (nat (pos s)) (buf s)). b \<noteq> 10 \<and> b \<noteq> 13)
                    then Errored Ended_mid_part else Closed),
          reads = Suc n\<rparr>"
    by (simp add: view_def)
  with assms show ?thesis by (rule view_loop_mainLoop)
qed

subsection \<open>The content length of an encodable part\<close>

lemma decimal_digits: "decimal n \<noteq> [] \<and> list_all digit (decimal n)"
proof (induction n rule: decimal.induct)
  case (1 n)
  show ?case
  proof (cases "n < 10")
    case True
    then show ?thesis by (subst (1 2) decimal.simps) (simp add: digit_def)
  next
    case False
    have "n mod 10 < 10" by simp
    then have "digit (0x30 + n mod 10)" unfolding digit_def by linarith
    then show ?thesis using 1 False by (subst (1 2) decimal.simps) simp
  qed
qed

lemma digits_value_snoc: "digits_value (ds @ [d]) = 10 * digits_value ds + (int d - 0x30)"
  by (simp add: digits_value_def)

lemma digits_value_decimal: "digits_value (decimal n) = int n"
proof (induction n rule: decimal.induct)
  case (1 n)
  show ?case
  proof (cases "n < 10")
    case True
    then show ?thesis by (subst decimal.simps) (simp add: digits_value_def)
  next
    case False
    have "digits_value (decimal n) = 10 * int (n div 10) + int (n mod 10)"
      using 1 False by (subst decimal.simps) (simp add: digits_value_snoc)
    also have "\<dots> = int (10 * (n div 10) + n mod 10)"
      by (simp only: of_nat_add of_nat_mult of_nat_numeral)
    also have "\<dots> = int n" by (simp only: mult_div_mod_eq)
    finally show ?thesis .
  qed
qed

lemma parseInt_decimal:
  assumes "r = [] \<or> \<not> digit (hd r)"
  shows "parseInt (Some (decimal n @ r)) = Some (int n)"
proof -
  obtain d ds where d: "decimal n = d # ds" using decimal_digits [of n] by (cases "decimal n") auto
  have dd: "digit d" using decimal_digits [of n] by (simp add: d)
  then have nw: "\<not> js_whitespace d" and ns: "d \<noteq> 0x2B" "d \<noteq> 0x2D"
    by (auto simp: digit_def js_whitespace_def)
  have t: "takeWhile digit r = []" using assms by (cases r) auto
  have "takeWhile digit (decimal n @ r) = decimal n"
    using decimal_digits [of n] t by (simp add: takeWhile_append2 list_all_iff)
  then have tw: "takeWhile digit (d # ds @ r) = d # ds" by (simp add: d)
  have "parseInt (Some (d # ds @ r)) = Some (digits_value (d # ds))"
    unfolding parseInt_def Let_def using nw ns tw by simp
  then show ?thesis using digits_value_decimal [of n] by (simp add: d)
qed

lemma join_values_Cons:
  "join_values (v # vs) = v @ (if vs = [] then [] else ascii '', '' @ join_values vs)"
  by (cases vs) simp_all

lemma find_filter: "find P xs = Some x \<Longrightarrow> \<exists>r. filter P xs = x # r"
  by (induction xs) (auto split: if_splits)

lemma encodable_well_formed:
  assumes "encodable p"
  shows "well_formed p"
proof -
  obtain j hs body where p: "p = (j, hs, body)" by (cases p)
  from assms obtain h where h: "find (\<lambda>h. same_name (fst h) (ascii ''Content-Length'')) hs = Some h"
    "snd h = decimal (length body)"
    by (auto simp: encodable_def p)
  from find_filter [OF h(1)] obtain r where
    r: "filter (\<lambda>h. same_name (fst h) (ascii ''Content-Length'')) hs = h # r" by blast
  have "Headers_get hs (ascii ''Content-Length'') =
      Some (decimal (length body) @ (if map snd r = [] then [] else ascii '', '' @ join_values (map snd r)))"
    unfolding Headers_get_def Let_def r using h(2) by (simp add: join_values_Cons del: join_values.simps)
  moreover have "parseInt (Some (decimal (length body) @
        (if map snd r = [] then [] else ascii '', '' @ join_values (map snd r)))) =
      Some (int (length body))"
    by (rule parseInt_decimal) (simp add: ascii_def digit_def)
  ultimately show ?thesis using assms by (simp add: well_formed_def encodable_def p)
qed

lemma encodable_all: "list_all encodable ps \<Longrightarrow> list_all well_formed ps"
  by (simp add: list_all_iff encodable_well_formed)

section \<open>The claims\<close>

text \<open>The definitions that evaluate the parser on given bytes.\<close>

lemmas eval_defs = ascii_def getBoundary_def startsWith_def str_indexOf_def substring_from_def
  substring_def encode_code_point_def multipartStream_def appendChunk_def processBuf.simps
  turn_def case_BOUNDARY_def case_HEADERS_def case_BODY_def skipBlank.simps trimNewlines.simps
  slice_def slice_from_def rel_index_def at_def indexOf_def decode_def code_units_def
  Headers_get_def Headers_append_def parseInt_def normalize_def header_name_def
  header_value_def tchar_def http_whitespace_def js_whitespace_def digit_def digits_value_def
  same_name_def lowercase_def blankLine_def Let_def

lemmas wire_defs = wire_def wire_part_def header_line_def blank_lines_def well_formed_def
  parsed_def

subsection \<open>Chunk invariance\<close>

text \<open>
  Claim C1 says that every valid stream, ending with the end boundary followed only
  by CR and LF bytes, gives the same parts and the same successful end however it
  is split into chunks.  After the end boundary \<^verbatim>\<open>processBuf\<close> returns in the
  boundary state.  Bytes that came in the same chunk stay in the buffer until the
  source ends, where any run of CR and LF bytes is dropped; bytes that come in a
  later chunk are drained as the start of a part, where only whole blank lines
  \<^verbatim>\<open>\r\n\<close> are skipped.  So the stream
  \<^verbatim>\<open>--X\r\nContent-Length: 5\r\n\r\nhello--X--\n\n\n\n\n\<close> closes when it comes in
  one chunk, as the claim says, and fails with a bad part boundary when the five LF
  bytes come in a chunk of their own.
\<close>

theorem chunking_changes_outcome:
  "multipartStream (ascii ''multipart/x-mixed-replace; boundary=X'')
     [ascii ''--X'' @ [0x0D, 0x0A] @ ascii ''Content-Length: 5'' @ [0x0D, 0x0A, 0x0D, 0x0A] @
      ascii ''hello--X--'' @ [0x0A, 0x0A, 0x0A, 0x0A, 0x0A]] =
   Some \<lparr>emitted = [\<lparr>p_headers = Some [(ascii ''Content-Length'', ascii ''5'')],
                      p_body = ascii ''hello''\<rparr>],
         ending = Closed, reads = 2\<rparr> \<and>
   multipartStream (ascii ''multipart/x-mixed-replace; boundary=X'')
     [ascii ''--X'' @ [0x0D, 0x0A] @ ascii ''Content-Length: 5'' @ [0x0D, 0x0A, 0x0D, 0x0A] @
      ascii ''hello--X--'', [0x0A, 0x0A, 0x0A, 0x0A, 0x0A]] =
   Some \<lparr>emitted = [\<lparr>p_headers = Some [(ascii ''Content-Length'', ascii ''5'')],
                      p_body = ascii ''hello''\<rparr>],
         ending = Errored Bad_part_boundary, reads = 2\<rparr>"
  by (simp add: eval_defs)

text \<open>
  What holds: for a stream in the wire format whose parts are well formed and whose
  end boundary is followed by whole blank lines \<^verbatim>\<open>\r\n\<close> only, any two ways \<open>cs\<close>
  and \<open>cs'\<close> of splitting it into chunks give a result, with the same parts
  enqueued and the same ending, which is the successful close.
\<close>

lemma chunk_invariance:
  assumes "getBoundary ct = Some token" and "list_all well_formed ps"
    and "concat cs = wire token ps j k" and "concat cs' = wire token ps j k"
  shows "\<exists>a b. multipartStream ct cs = Some a \<and> multipartStream ct cs' = Some b \<and>
    emitted a = emitted b \<and> ending a = ending b \<and> ending a = Closed"
  using multipartStream_wire [OF assms(1,2,3)] multipartStream_wire [OF assms(1,2,4)] by simp

lemma chunk_invariance_witness:
  "\<exists>a b.
     multipartStream (ascii ''multipart/x-mixed-replace; boundary=X'')
       [ascii ''--X'' @ [0x0D, 0x0A] @ ascii ''Content-Length: 5'' @ [0x0D, 0x0A, 0x0D, 0x0A] @
        ascii ''hello--X--'' @ [0x0D, 0x0A]] = Some a \<and>
     multipartStream (ascii ''multipart/x-mixed-replace; boundary=X'')
       (map (\<lambda>b. [b])
         (ascii ''--X'' @ [0x0D, 0x0A] @ ascii ''Content-Length: 5'' @ [0x0D, 0x0A, 0x0D, 0x0A] @
          ascii ''hello--X--'' @ [0x0D, 0x0A])) = Some b \<and>
     emitted a = emitted b \<and> ending a = ending b \<and> ending a = Closed"
proof -
  define S where "S = ascii ''--X'' @ [0x0D, 0x0A] @ ascii ''Content-Length: 5'' @
      [0x0D, 0x0A, 0x0D, 0x0A] @ ascii ''hello--X--'' @ [0x0D, 0x0A]"
  have g: "getBoundary (ascii ''multipart/x-mixed-replace; boundary=X'') = Some (ascii ''X'')"
    by (simp add: eval_defs)
  have w: "list_all well_formed [(0, [(ascii ''Content-Length'', ascii ''5'')], ascii ''hello'')]"
    by (simp add: wire_defs eval_defs)
  have s: "wire (ascii ''X'') [(0, [(ascii ''Content-Length'', ascii ''5'')], ascii ''hello'')] 0 1 = S"
    by (simp add: S_def wire_defs eval_defs)
  have c1: "concat [S] = wire (ascii ''X'') [(0, [(ascii ''Content-Length'', ascii ''5'')], ascii ''hello'')] 0 1"
    unfolding s by simp
  have c2: "concat (map (\<lambda>b. [b]) S) = wire (ascii ''X'') [(0, [(ascii ''Content-Length'', ascii ''5'')], ascii ''hello'')] 0 1"
    by (simp only: concat_singletons s)
  show ?thesis unfolding S_def [symmetric] by (rule chunk_invariance [OF g w c1 c2])
qed

subsection \<open>Clean termination\<close>

text \<open>
  Claim C2 says that a stream that ends at the end boundary, with or without CR and
  LF bytes behind it, closes after its parts are enqueued, and that when any other
  bytes follow the end boundary, or the source ends outside the boundary state, the
  parser fails with the error for a stream that ended inside a part and enqueues no
  further part.  Bytes behind the end boundary in the same chunk are left in the
  buffer and fail in this way when the source ends.  But \<^verbatim>\<open>processBuf\<close> keeps no
  record of the end boundary: bytes that come in a later chunk are drained like the
  start of the stream.  Here a whole part follows the end boundary.  In a chunk of
  its own it is enqueued and the stream closes; in the same chunk as the end
  boundary nothing is enqueued and the stream fails.
\<close>

theorem part_after_end_boundary:
  "multipartStream (ascii ''multipart/x-mixed-replace; boundary=X'')
     [ascii ''--X--'',
      ascii ''--X'' @ [0x0D, 0x0A] @ ascii ''Content-Length: 5'' @ [0x0D, 0x0A, 0x0D, 0x0A] @
      ascii ''hello--X--''] =
   Some \<lparr>emitted = [\<lparr>p_headers = Some [(ascii ''Content-Length'', ascii ''5'')],
                      p_body = ascii ''hello''\<rparr>],
         ending = Closed, reads = 3\<rparr> \<and>
   multipartStream (ascii ''multipart/x-mixed-replace; boundary=X'')
     [ascii ''--X--'' @
      ascii ''--X'' @ [0x0D, 0x0A] @ ascii ''Content-Length: 5'' @ [0x0D, 0x0A, 0x0D, 0x0A] @
      ascii ''hello--X--''] =
   Some \<lparr>emitted = [], ending = Errored Ended_mid_part, reads = 2\<rparr>"
  by (simp add: eval_defs)

text \<open>
  What holds: every chunking of a stream in the wire format whose parts are well
  formed and whose end boundary is followed by whole blank lines \<^verbatim>\<open>\r\n\<close> only
  closes the stream after all its parts are enqueued; and when the source ends
  while the cursor is inside the buffer, the parser fails with the error for a
  stream that ended inside a part if it is not in the boundary state or a byte other
  than CR and LF is left in the buffer from the cursor on, and closes the stream
  otherwise, in both cases with no further part enqueued.
\<close>

lemma clean_termination:
  "(getBoundary ct = Some token \<longrightarrow> list_all well_formed ps \<longrightarrow> concat cs = wire token ps j k \<longrightarrow>
      multipartStream ct cs =
        Some \<lparr>emitted = map parsed ps, ending = Closed, reads = Suc (length cs)\<rparr>) \<and>
   (in_range s \<longrightarrow>
      mainLoop m e s n [] =
        Some \<lparr>emitted = enqueued s,
              ending = (if state s \<noteq> STATE_BOUNDARY \<or>
                           (\<exists>b \<in> set (drop (nat (pos s)) (buf s)). b \<noteq> 10 \<and> b \<noteq> 13)
                        then Errored Ended_mid_part else Closed),
              reads = Suc n\<rparr>)"
  using multipartStream_wire [of ct token ps cs j k] end_of_source [of s m e n] by blast

lemma clean_termination_witness:
  "multipartStream (ascii ''multipart/x-mixed-replace; boundary=X'')
     [ascii ''--X'' @ [0x0D, 0x0A] @ ascii ''Content-Length: 5'' @ [0x0D, 0x0A, 0x0D],
      [0x0A] @ ascii ''hello--X--'' @ [0x0D], [0x0A]] =
   Some \<lparr>emitted = [\<lparr>p_headers = Some [(ascii ''Content-Length'', ascii ''5'')],
                      p_body = ascii ''hello''\<rparr>],
         ending = Closed, reads = 4\<rparr> \<and>
   mainLoop (ascii ''--X'' @ [0x0D, 0x0A]) (ascii ''--X--'')
     \<lparr>pos = 5, buf = ascii ''--X--hello'', state = STATE_BOUNDARY, headers = None,
      contentLength = None, enqueued = []\<rparr> 1 [] =
   Some \<lparr>emitted = [], ending = Errored Ended_mid_part, reads = 2\<rparr>"
proof -
  define S where "S = [ascii ''--X'' @ [0x0D, 0x0A] @ ascii ''Content-Length: 5'' @ [0x0D, 0x0A, 0x0D],
      [0x0A] @ ascii ''hello--X--'' @ [0x0D], [0x0A]]"
  define s where "s = \<lparr>pos = 5, buf = ascii ''--X--hello'', state = STATE_BOUNDARY, headers = None,
      contentLength = None, enqueued = []\<rparr>"
  have g: "getBoundary (ascii ''multipart/x-mixed-replace; boundary=X'') = Some (ascii ''X'')"
    by (simp add: eval_defs)
  have w: "list_all well_formed [(0, [(ascii ''Content-Length'', ascii ''5'')], ascii ''hello'')]"
    by (simp add: wire_defs eval_defs)
  have c: "concat S = wire (ascii ''X'') [(0, [(ascii ''Content-Length'', ascii ''5'')], ascii ''hello'')] 0 1"
    by (simp add: S_def wire_defs eval_defs)
  have p: "map parsed [(0, [(ascii ''Content-Length'', ascii ''5'')], ascii ''hello'')] =
      [\<lparr>p_headers = Some [(ascii ''Content-Length'', ascii ''5'')], p_body = ascii ''hello''\<rparr>]"
    by (simp add: parsed_def)
  have i: "in_range s" by (simp add: s_def in_range_def ascii_def)
  have b: "state s = STATE_BOUNDARY" "enqueued s = []"
    "\<exists>b \<in> set (drop (nat (pos s)) (buf s)). b \<noteq> 10 \<and> b \<noteq> 13"
    by (simp_all add: s_def ascii_def)
  note t = clean_termination [of "ascii ''multipart/x-mixed-replace; boundary=X''" "ascii ''X''"
      "[(0, [(ascii ''Content-Length'', ascii ''5'')], ascii ''hello'')]" S 0 1 s
      "ascii ''--X'' @ [0x0D, 0x0A]" "ascii ''--X--''" 1]
  have l: "Suc (length S) = 4" by (simp add: S_def)
  have "multipartStream (ascii ''multipart/x-mixed-replace; boundary=X'') S =
      Some \<lparr>emitted = [\<lparr>p_headers = Some [(ascii ''Content-Length'', ascii ''5'')], p_body = ascii ''hello''\<rparr>],
            ending = Closed, reads = 4\<rparr>"
    using t [THEN conjunct1, rule_format, OF g w c] unfolding p l .
  moreover have "mainLoop (ascii ''--X'' @ [0x0D, 0x0A]) (ascii ''--X--'') s 1 [] =
      Some \<lparr>emitted = [], ending = Errored Ended_mid_part, reads = 2\<rparr>"
    using t [THEN conjunct2, rule_format, OF i] b by simp
  ultimately show ?thesis unfolding S_def s_def by blast
qed

subsection \<open>The content length\<close>

text \<open>
  Claim C3 says that a \<^verbatim>\<open>Content-Length\<close> that is not a non-negative decimal
  integer, \<^verbatim>\<open>-5\<close> for one, fails with the error for a missing or invalid content
  length.  The source tests the result of \<^verbatim>\<open>parseInt\<close> with \<^verbatim>\<open>isNaN\<close> only,
  and \<^verbatim>\<open>parseInt("-5", 10)\<close> is the number \<open>-5\<close>: on the stream
  \<^verbatim>\<open>--X\r\nContent-Length: -5\r\n\r\n\<close> the parser enters the body state, enqueues
  a part with an empty body, moves the cursor five bytes back and fails on the bytes
  it reads there as a boundary.
\<close>

theorem negative_Content_Length_accepted:
  "multipartStream (ascii ''multipart/x-mixed-replace; boundary=X'')
     [ascii ''--X'' @ [0x0D, 0x0A] @ ascii ''Content-Length: -5'' @ [0x0D, 0x0A, 0x0D, 0x0A]] =
   Some \<lparr>emitted = [\<lparr>p_headers = Some [(ascii ''Content-Length'', ascii ''-5'')], p_body = []\<rparr>],
         ending = Errored Bad_part_boundary, reads = 1\<rparr>"
  by (simp add: eval_defs)

text \<open>
  Claim C4 says that the cursor stays between 0 and the length of the buffer at
  every point, in particular when the drain returns.  With a negative
  \<^verbatim>\<open>Content-Length\<close> the body state subtracts from the cursor: on the chunk
  \<^verbatim>\<open>--X\r\nContent-Length: -35\r\n\r\n--X--\r\n\<close> the cursor goes from 28 to \<open>-7\<close>,
  the slices that follow count from the end of the buffer and find the end boundary
  there, and \<^verbatim>\<open>processBuf\<close> returns with the cursor at \<open>-2\<close>.
\<close>

theorem cursor_below_zero:
  "processBuf (ascii ''--X'' @ [0x0D, 0x0A]) (ascii ''--X--'')
     \<lparr>pos = 0,
      buf = ascii ''--X'' @ [0x0D, 0x0A] @ ascii ''Content-Length: -35'' @
            [0x0D, 0x0A, 0x0D, 0x0A] @ ascii ''--X--'' @ [0x0D, 0x0A],
      state = STATE_BOUNDARY, headers = None, contentLength = None, enqueued = []\<rparr> =
   Some (Returned
     \<lparr>pos = - 2,
      buf = ascii ''--X'' @ [0x0D, 0x0A] @ ascii ''Content-Length: -35'' @
            [0x0D, 0x0A, 0x0D, 0x0A] @ ascii ''--X--'' @ [0x0D, 0x0A],
      state = STATE_BOUNDARY, headers = None, contentLength = None,
      enqueued = [\<lparr>p_headers = Some [(ascii ''Content-Length'', ascii ''-35'')], p_body = []\<rparr>]\<rparr>)"
  by (simp add: eval_defs)

text \<open>
  Claim C10: when the empty line that ends a header block is read and the
  \<^verbatim>\<open>Content-Length\<close> of the part parses to 0, the turn enters the body state and
  the next turn of the same drain enqueues the part with an empty body, whatever
  follows in the buffer (\<open>r\<close>, which may be empty), and the drain goes on from the
  boundary state.
\<close>

theorem empty_body_emitted_at_once:
  assumes "state s = STATE_HEADERS" and "headers s = Some hs"
    and "parseInt (Headers_get hs (ascii ''Content-Length'')) = Some 0"
    and "0 \<le> pos s" and "drop (nat (pos s)) (buf s) = 0x0D # 0x0A # r"
  shows "turn m e s = Break (s\<lparr>pos := pos s + 2, contentLength := Some 0, state := STATE_BODY\<rparr>) \<and>
    turn m e (s\<lparr>pos := pos s + 2, contentLength := Some 0, state := STATE_BODY\<rparr>) =
      Break (s\<lparr>pos := pos s + 2,
               enqueued := enqueued s @ [\<lparr>p_headers = Some hs, p_body = []\<rparr>],
               headers := None, contentLength := None, state := STATE_BOUNDARY\<rparr>) \<and>
    processBuf m e s =
      processBuf m e (s\<lparr>pos := pos s + 2,
               enqueued := enqueued s @ [\<lparr>p_headers = Some hs, p_body = []\<rparr>],
               headers := None, contentLength := None, state := STATE_BOUNDARY\<rparr>)"
proof -
  define k where "k = nat (pos s)"
  have k: "pos s = int k" using assms(4) by (simp add: k_def)
  have d: "drop k (buf s) = 0x0D # 0x0A # r" using assms(5) by (simp add: k_def)
  note d1 = drop_Cons1 [OF d]
  note d2 = drop_Cons1 [OF d1(1)]
  have cr: "indexOf (buf s) 0x0D (int k) = int k"
    unfolding indexOf_nat d by simp
  have a1: "at (buf s) (int k + 1) = Some 0x0A"
    using at_nat [of "buf s" "Suc k"] d2 by (simp add: add.commute)
  have ne: "int (length (buf s)) \<noteq> int k + 1" using d2(3) by simp
  have sl: "slice (buf s) (int k) (int k) = []" by (simp add: slice_nat)
  define s1 where "s1 = s\<lparr>pos := pos s + 2, contentLength := Some 0, state := STATE_BODY\<rparr>"
  define s2 where "s2 = s\<lparr>pos := pos s + 2,
               enqueued := enqueued s @ [\<lparr>p_headers = Some hs, p_body = []\<rparr>],
               headers := None, contentLength := None, state := STATE_BOUNDARY\<rparr>"
  have "case_HEADERS s = Break s1"
    unfolding case_HEADERS_def k cr Let_def sl s1_def
    using ne a1 assms(2,3) by (simp add: decode_def)
  then have t1: "turn m e s = Break s1" using assms(1) by (simp add: turn_def)
  have le: "\<not> int (length (buf s)) < int k + 2" using d2(3) by simp
  have sl2: "slice (buf s) (int k + 2) (int k + 2) = []"
    by (simp add: slice_def Let_def)
  have "case_BODY s1 = Break s2"
    unfolding case_BODY_def s1_def s2_def Let_def
    using le sl2 assms(2) by (simp add: k)
  then have t2: "turn m e s1 = Break s2" by (simp add: turn_def s1_def)
  have "processBuf m e s = processBuf m e s1" using t1 by (subst processBuf.simps) simp
  also have "\<dots> = processBuf m e s2" using t2 by (subst processBuf.simps) simp
  finally show ?thesis using t1 t2 unfolding s1_def s2_def by simp
qed

theorem empty_body_emitted_at_once_witness:
  "processBuf (ascii ''--X'' @ [0x0D, 0x0A]) (ascii ''--X--'')
     \<lparr>pos = 24, buf = ascii ''--X'' @ [0x0D, 0x0A] @ ascii ''Content-Length: 0'' @ [0x0D, 0x0A, 0x0D, 0x0A],
      state = STATE_HEADERS, headers = Some [(ascii ''Content-Length'', ascii ''0'')],
      contentLength = None, enqueued = []\<rparr> =
   Some (Returned
     \<lparr>pos = 26, buf = ascii ''--X'' @ [0x0D, 0x0A] @ ascii ''Content-Length: 0'' @ [0x0D, 0x0A, 0x0D, 0x0A],
      state = STATE_BOUNDARY, headers = None, contentLength = None,
      enqueued = [\<lparr>p_headers = Some [(ascii ''Content-Length'', ascii ''0'')], p_body = []\<rparr>]\<rparr>)"
proof -
  define s where "s = \<lparr>pos = 24,
      buf = ascii ''--X'' @ [0x0D, 0x0A] @ ascii ''Content-Length: 0'' @ [0x0D, 0x0A, 0x0D, 0x0A],
      state = STATE_HEADERS, headers = Some [(ascii ''Content-Length'', ascii ''0'')],
      contentLength = None, enqueued = []\<rparr>"
  have "processBuf (ascii ''--X'' @ [0x0D, 0x0A]) (ascii ''--X--'') s =
      processBuf (ascii ''--X'' @ [0x0D, 0x0A]) (ascii ''--X--'')
        (s\<lparr>pos := pos s + 2,
               enqueued := enqueued s @ [\<lparr>p_headers = Some [(ascii ''Content-Length'', ascii ''0'')], p_body = []\<rparr>],
               headers := None, contentLength := None, state := STATE_BOUNDARY\<rparr>)"
    using empty_body_emitted_at_once [of s "[(ascii ''Content-Length'', ascii ''0'')]" "[]"
        "ascii ''--X'' @ [0x0D, 0x0A]" "ascii ''--X--''"]
    by (simp add: s_def eval_defs)
  also have "\<dots> = Some (Returned
     \<lparr>pos = 26, buf = ascii ''--X'' @ [0x0D, 0x0A] @ ascii ''Content-Length: 0'' @ [0x0D, 0x0A, 0x0D, 0x0A],
      state = STATE_BOUNDARY, headers = None, contentLength = None,
      enqueued = [\<lparr>p_headers = Some [(ascii ''Content-Length'', ascii ''0'')], p_body = []\<rparr>]\<rparr>)"
    by (simp add: s_def eval_defs)
  finally show ?thesis unfolding s_def .
qed

subsection \<open>Header lines\<close>

text \<open>
  Claim C5 says that a header line without a colon fails with the error for a
  header line that lacks \<^verbatim>\<open>": "\<close>.  For such a line \<^verbatim>\<open>indexOf\<close> gives \<open>-1\<close>, so
  the test \<^verbatim>\<open>colon == line.length\<close> of the source never holds and the second test
  looks at the first character of the line.  The line \<^verbatim>\<open>abc\<close> is rejected with that
  error, but the line \<^verbatim>\<open> abc\<close>, which starts with a space, passes both tests and
  reaches \<^verbatim>\<open>headers.append\<close> with an empty name, where \<^verbatim>\<open>Headers\<close> raises a
  \<^verbatim>\<open>TypeError\<close>.
\<close>

theorem no_colon_line_not_rejected:
  "multipartStream (ascii ''multipart/x-mixed-replace; boundary=X'')
     [ascii ''--X'' @ [0x0D, 0x0A] @ ascii ''abc'' @ [0x0D, 0x0A]] =
   Some \<lparr>emitted = [], ending = Errored Bad_header_no_colon_space, reads = 1\<rparr> \<and>
   multipartStream (ascii ''multipart/x-mixed-replace; boundary=X'')
     [ascii ''--X'' @ [0x0D, 0x0A] @ ascii '' abc'' @ [0x0D, 0x0A]] =
   Some \<lparr>emitted = [], ending = Errored TypeError, reads = 1\<rparr>"
  by (simp add: eval_defs)

subsection \<open>The boundary of the content type\<close>

text \<open>
  Claim C6, the contract of \<^verbatim>\<open>getBoundary\<close>: the extraction succeeds exactly when
  the content type is \<^verbatim>\<open>multipart/\<close>, then any text, then \<^verbatim>\<open>; boundary=\<close>, then
  any text; the token it returns is everything after the first such marker behind
  the prefix, as it stands; and when it fails the stream ends with the error for an
  invalid content type, with nothing enqueued and no read issued.
\<close>

theorem getBoundary_contract:
  "(getBoundary ct \<noteq> None \<longleftrightarrow>
      (\<exists>pre post. ct = ascii ''multipart/'' @ pre @ ascii ''; boundary='' @ post)) \<and>
   (\<forall>token. getBoundary ct = Some token \<longrightarrow>
      (\<exists>pre. ct = ascii ''multipart/'' @ pre @ ascii ''; boundary='' @ token \<and>
         (\<forall>pre' post'. ct = ascii ''multipart/'' @ pre' @ ascii ''; boundary='' @ post' \<longrightarrow>
            length pre \<le> length pre'))) \<and>
   (getBoundary ct = None \<longrightarrow>
      multipartStream ct chunks =
        Some \<lparr>emitted = [], ending = Errored Invalid_content_type, reads = 0\<rparr>)"
  using getBoundary_None [of ct] getBoundary_Some [of ct]
  by (auto simp: multipartStream_def)

theorem getBoundary_contract_witness:
  "getBoundary (ascii ''multipart/x-mixed-replace; boundary=X; charset=utf-8'') =
     Some (ascii ''X; charset=utf-8'') \<and>
   (\<exists>pre. ascii ''multipart/x-mixed-replace; boundary=X; charset=utf-8'' =
      ascii ''multipart/'' @ pre @ ascii ''; boundary='' @ ascii ''X; charset=utf-8'') \<and>
   getBoundary (ascii ''text/plain; boundary=X'') = None \<and>
   multipartStream (ascii ''text/plain; boundary=X'') [ascii ''--X--''] =
     Some \<lparr>emitted = [], ending = Errored Invalid_content_type, reads = 0\<rparr>"
proof -
  have a: "getBoundary (ascii ''multipart/x-mixed-replace; boundary=X; charset=utf-8'') =
     Some (ascii ''X; charset=utf-8'')"
    by (simp add: eval_defs)
  have b: "getBoundary (ascii ''text/plain; boundary=X'') = None"
    by (simp add: eval_defs)
  from getBoundary_contract [of "ascii ''multipart/x-mixed-replace; boundary=X; charset=utf-8''"] a
  have "\<exists>pre. ascii ''multipart/x-mixed-replace; boundary=X; charset=utf-8'' =
      ascii ''multipart/'' @ pre @ ascii ''; boundary='' @ ascii ''X; charset=utf-8''"
    by blast
  moreover from getBoundary_contract [of "ascii ''text/plain; boundary=X''" "[ascii ''--X--'']"] b
  have "multipartStream (ascii ''text/plain; boundary=X'') [ascii ''--X--''] =
     Some \<lparr>emitted = [], ending = Errored Invalid_content_type, reads = 0\<rparr>"
    by blast
  ultimately show ?thesis using a b by blast
qed

subsection \<open>Round trip\<close>

text \<open>
  Claim C7 says that every list of pairs of headers and a body, encoded in the wire
  format with a \<^verbatim>\<open>Content-Length\<close> header for the length of each body, is parsed
  into one part for each pair, with the headers and the body of the pair.  The
  source keeps the headers in a \<^verbatim>\<open>Headers\<close> object, which takes no value with a
  code unit above 255, strips a value of leading and trailing white space, and
  spells a repeated name as its first entry spells it: a value of the one
  character U+20AC ends the stream with a \<^verbatim>\<open>TypeError\<close> and nothing enqueued, the value
  \<^verbatim>\<open> a\<close> comes back as \<^verbatim>\<open>a\<close>, and the name \<^verbatim>\<open>tag\<close> behind a header
  \<^verbatim>\<open>Tag\<close> comes back as \<^verbatim>\<open>Tag\<close>.
\<close>

theorem headers_not_returned:
  "wire (ascii ''X'') [(0, [(ascii ''Name'', [0x20AC]), (ascii ''Content-Length'', ascii ''1'')],
                        ascii ''a'')] 0 0 =
     ascii ''--X'' @ [0x0D, 0x0A] @ ascii ''Name: '' @ [0xE2, 0x82, 0xAC] @ [0x0D, 0x0A] @
     ascii ''Content-Length: 1'' @ [0x0D, 0x0A, 0x0D, 0x0A] @ ascii ''a--X--'' \<and>
   multipartStream (ascii ''multipart/x-mixed-replace; boundary=X'')
     [ascii ''--X'' @ [0x0D, 0x0A] @ ascii ''Name: '' @ [0xE2, 0x82, 0xAC] @ [0x0D, 0x0A] @
      ascii ''Content-Length: 1'' @ [0x0D, 0x0A, 0x0D, 0x0A] @ ascii ''a--X--''] =
     Some \<lparr>emitted = [], ending = Errored TypeError, reads = 1\<rparr> \<and>
   wire (ascii ''X'') [(0, [(ascii ''Name'', ascii '' a''), (ascii ''Content-Length'', ascii ''1'')],
                        ascii ''a'')] 0 0 =
     ascii ''--X'' @ [0x0D, 0x0A] @ ascii ''Name:  a'' @ [0x0D, 0x0A] @
     ascii ''Content-Length: 1'' @ [0x0D, 0x0A, 0x0D, 0x0A] @ ascii ''a--X--'' \<and>
   multipartStream (ascii ''multipart/x-mixed-replace; boundary=X'')
     [ascii ''--X'' @ [0x0D, 0x0A] @ ascii ''Name:  a'' @ [0x0D, 0x0A] @
      ascii ''Content-Length: 1'' @ [0x0D, 0x0A, 0x0D, 0x0A] @ ascii ''a--X--''] =
     Some \<lparr>emitted = [\<lparr>p_headers = Some [(ascii ''Name'', ascii ''a''),
                                           (ascii ''Content-Length'', ascii ''1'')],
                        p_body = ascii ''a''\<rparr>],
           ending = Closed, reads = 2\<rparr> \<and>
   wire (ascii ''X'') [(0, [(ascii ''Tag'', ascii ''a''), (ascii ''tag'', ascii ''b''),
                            (ascii ''Content-Length'', ascii ''0'')], [])] 0 0 =
     ascii ''--X'' @ [0x0D, 0x0A] @ ascii ''Tag: a'' @ [0x0D, 0x0A] @ ascii ''tag: b'' @ [0x0D, 0x0A] @
     ascii ''Content-Length: 0'' @ [0x0D, 0x0A, 0x0D, 0x0A] @ ascii ''--X--'' \<and>
   multipartStream (ascii ''multipart/x-mixed-replace; boundary=X'')
     [ascii ''--X'' @ [0x0D, 0x0A] @ ascii ''Tag: a'' @ [0x0D, 0x0A] @ ascii ''tag: b'' @ [0x0D, 0x0A] @
      ascii ''Content-Length: 0'' @ [0x0D, 0x0A, 0x0D, 0x0A] @ ascii ''--X--''] =
     Some \<lparr>emitted = [\<lparr>p_headers = Some [(ascii ''Tag'', ascii ''a''), (ascii ''Tag'', ascii ''b''),
                                           (ascii ''Content-Length'', ascii ''0'')],
                        p_body = []\<rparr>],
           ending = Closed, reads = 2\<rparr>"
  by (simp add: eval_defs wire_defs)

text \<open>
  Claim C7, amended: for every list of encodable parts (each header name a token,
  each header value a header value, the first header named \<^verbatim>\<open>Content-Length\<close>,
  the case of letters ignored, with the decimal numeral of the length of the body
  as its value), the bytes of the list in the wire format, with the boundary token
  of the content type, any number of blank lines before each boundary and behind
  the end boundary, and however they are split into chunks, are parsed into one
  part for each part of the list, in order, and the stream closes.  The bodies are
  those of the list.  The headers of each part are the list that \<^verbatim>\<open>Headers\<close>
  holds after the headers are appended in order: one entry for each header, also
  for a repeated name, with the values of the list in the order of the list and
  the names of the list up to the case of letters; and \<^verbatim>\<open>get\<close> returns for every
  name the values of the headers of the list that have this name, the case of
  letters ignored, in the order of the list and joined by a comma and a space,
  and \<^verbatim>\<open>null\<close> when there is none.
\<close>

theorem round_trip:
  assumes "getBoundary ct = Some token" and "list_all encodable ps"
    and "concat cs = wire token ps j k"
  shows "multipartStream ct cs =
      Some \<lparr>emitted = map parsed ps, ending = Closed, reads = Suc (length cs)\<rparr> \<and>
    map p_body (map parsed ps) = map (\<lambda>p. snd (snd p)) ps \<and>
    (\<forall>p \<in> set ps. \<exists>hs.
        p_headers (parsed p) = Some hs \<and> map snd hs = map snd (fst (snd p)) \<and>
        map (\<lambda>h. lowercase (fst h)) hs = map (\<lambda>h. lowercase (fst h)) (fst (snd p)) \<and>
        (\<forall>name. Headers_get hs name =
           (let vs = map snd (filter (\<lambda>h. lowercase (fst h) = lowercase name) (fst (snd p)))
            in if vs = [] then None else Some (join_values vs))))"
proof -
  have "map p_body (map parsed ps) = map (\<lambda>p. snd (snd p)) ps"
    by (induction ps) (auto simp: parsed_def)
  moreover have "\<forall>p \<in> set ps. \<exists>hs.
        p_headers (parsed p) = Some hs \<and> map snd hs = map snd (fst (snd p)) \<and>
        map (\<lambda>h. lowercase (fst h)) hs = map (\<lambda>h. lowercase (fst h)) (fst (snd p)) \<and>
        (\<forall>name. Headers_get hs name =
           (let vs = map snd (filter (\<lambda>h. lowercase (fst h) = lowercase name) (fst (snd p)))
            in if vs = [] then None else Some (join_values vs)))"
  proof
    fix p assume "p \<in> set ps"
    obtain b hs body where p: "p = (b, hs, body)" by (cases p)
    have "Headers_get (appended [] hs) name =
           (let vs = map snd (filter (\<lambda>h. lowercase (fst h) = lowercase name) hs)
            in if vs = [] then None else Some (join_values vs))" for name
      unfolding Headers_get_appended by (simp add: Headers_get_def same_name_def)
    then show "\<exists>hs.
        p_headers (parsed p) = Some hs \<and> map snd hs = map snd (fst (snd p)) \<and>
        map (\<lambda>h. lowercase (fst h)) hs = map (\<lambda>h. lowercase (fst h)) (fst (snd p)) \<and>
        (\<forall>name. Headers_get hs name =
           (let vs = map snd (filter (\<lambda>h. lowercase (fst h) = lowercase name) (fst (snd p)))
            in if vs = [] then None else Some (join_values vs)))"
      using appended_values [of "[]" hs] by (simp add: parsed_def p)
  qed
  ultimately show ?thesis
    using multipartStream_wire [OF assms(1) encodable_all [OF assms(2)] assms(3)] by simp
qed

theorem round_trip_witness:
  "multipartStream (ascii ''multipart/x-mixed-replace; boundary=X'')
     [[0x0D, 0x0A] @ ascii ''--X'' @ [0x0D, 0x0A] @ ascii ''Tag: a'' @ [0x0D, 0x0A] @
      ascii ''Content-Length: 2'' @ [0x0D, 0x0A] @ ascii ''tag: b'' @ [0x0D, 0x0A, 0x0D, 0x0A] @
      ascii ''hi'' @ ascii ''--X'' @ [0x0D, 0x0A] @ ascii ''Content-Length: 0'' @
      [0x0D, 0x0A, 0x0D, 0x0A] @ ascii ''--X--''] =
   Some \<lparr>emitted =
           [\<lparr>p_headers = Some [(ascii ''Tag'', ascii ''a''), (ascii ''Content-Length'', ascii ''2''),
                               (ascii ''Tag'', ascii ''b'')],
             p_body = ascii ''hi''\<rparr>,
            \<lparr>p_headers = Some [(ascii ''Content-Length'', ascii ''0'')], p_body = []\<rparr>],
         ending = Closed, reads = 2\<rparr> \<and>
   Headers_get [(ascii ''Tag'', ascii ''a''), (ascii ''Content-Length'', ascii ''2''),
                (ascii ''Tag'', ascii ''b'')] (ascii ''TAG'') = Some (ascii ''a, b'')"
proof -
  define ps where "ps = [(1 :: nat, [(ascii ''Tag'', ascii ''a''), (ascii ''Content-Length'', ascii ''2''),
      (ascii ''tag'', ascii ''b'')], ascii ''hi''), (0, [(ascii ''Content-Length'', ascii ''0'')], [])]"
  define S where "S = [0x0D, 0x0A] @ ascii ''--X'' @ [0x0D, 0x0A] @ ascii ''Tag: a'' @ [0x0D, 0x0A] @
      ascii ''Content-Length: 2'' @ [0x0D, 0x0A] @ ascii ''tag: b'' @ [0x0D, 0x0A, 0x0D, 0x0A] @
      ascii ''hi'' @ ascii ''--X'' @ [0x0D, 0x0A] @ ascii ''Content-Length: 0'' @
      [0x0D, 0x0A, 0x0D, 0x0A] @ ascii ''--X--''"
  have g: "getBoundary (ascii ''multipart/x-mixed-replace; boundary=X'') = Some (ascii ''X'')"
    by (simp add: eval_defs)
  have d: "decimal (Suc (Suc 0)) = [50]" "decimal 0 = [48]"
    by (simp_all add: decimal.simps)
  have w: "list_all encodable ps"
    by (simp add: ps_def encodable_def d eval_defs)
  have c: "concat [S] = wire (ascii ''X'') ps 0 0"
    by (simp add: S_def ps_def wire_defs eval_defs)
  have p: "map parsed ps =
           [\<lparr>p_headers = Some [(ascii ''Tag'', ascii ''a''), (ascii ''Content-Length'', ascii ''2''),
                               (ascii ''Tag'', ascii ''b'')],
             p_body = ascii ''hi''\<rparr>,
            \<lparr>p_headers = Some [(ascii ''Content-Length'', ascii ''0'')], p_body = []\<rparr>]"
    by (simp add: ps_def parsed_def eval_defs)
  have h: "Headers_get [(ascii ''Tag'', ascii ''a''), (ascii ''Content-Length'', ascii ''2''),
                (ascii ''Tag'', ascii ''b'')] (ascii ''TAG'') = Some (ascii ''a, b'')"
    by (simp add: eval_defs)
  show ?thesis using round_trip [OF g w c] h unfolding p S_def by simp
qed

text \<open>
  Claim C8, the worked example: with the content type
  \<^verbatim>\<open>multipart/x-mixed-replace; boundary=X\<close> and the bytes
  \<^verbatim>\<open>--X\r\nContent-Length: 5\r\n\r\nhello--X--\<close> delivered in any chunks \<open>cs\<close>, then
  the end of the source, the parser enqueues one part, with the header
  \<^verbatim>\<open>Content-Length\<close> of value \<^verbatim>\<open>5\<close> and the body \<^verbatim>\<open>hello\<close>, and closes the
  stream.
\<close>

theorem worked_example:
  assumes "concat cs = ascii ''--X'' @ [0x0D, 0x0A] @ ascii ''Content-Length: 5'' @
      [0x0D, 0x0A, 0x0D, 0x0A] @ ascii ''hello--X--''"
  shows "multipartStream (ascii ''multipart/x-mixed-replace; boundary=X'') cs =
   Some \<lparr>emitted = [\<lparr>p_headers = Some [(ascii ''Content-Length'', ascii ''5'')],
                      p_body = ascii ''hello''\<rparr>],
         ending = Closed, reads = Suc (length cs)\<rparr>"
proof -
  have g: "getBoundary (ascii ''multipart/x-mixed-replace; boundary=X'') = Some (ascii ''X'')"
    by (simp add: eval_defs)
  have w: "list_all well_formed [(0, [(ascii ''Content-Length'', ascii ''5'')], ascii ''hello'')]"
    by (simp add: wire_defs eval_defs)
  have "wire (ascii ''X'') [(0, [(ascii ''Content-Length'', ascii ''5'')], ascii ''hello'')] 0 0 =
      ascii ''--X'' @ [0x0D, 0x0A] @ ascii ''Content-Length: 5'' @
      [0x0D, 0x0A, 0x0D, 0x0A] @ ascii ''hello--X--''"
    by (simp add: wire_defs eval_defs)
  then have c: "concat cs = wire (ascii ''X'') [(0, [(ascii ''Content-Length'', ascii ''5'')], ascii ''hello'')] 0 0"
    using assms by simp
  show ?thesis using multipartStream_wire [OF g w c] by (simp add: parsed_def)
qed

theorem worked_example_witness:
  "multipartStream (ascii ''multipart/x-mixed-replace; boundary=X'')
     [ascii ''--X'' @ [0x0D, 0x0A] @ ascii ''Content-Length: 5'' @ [0x0D, 0x0A, 0x0D, 0x0A] @
      ascii ''hello--X--''] =
   Some \<lparr>emitted = [\<lparr>p_headers = Some [(ascii ''Content-Length'', ascii ''5'')],
                      p_body = ascii ''hello''\<rparr>],
         ending = Closed, reads = 2\<rparr>"
  using worked_example [of "[ascii ''--X'' @ [0x0D, 0x0A] @ ascii ''Content-Length: 5'' @
      [0x0D, 0x0A, 0x0D, 0x0A] @ ascii ''hello--X--'']"] by simp

end
